theory Spec2Isabelle
  imports Complex_Main "HOL-Library.Sublist"
begin

section \<open>Strings\<close>

text \<open>
  A Go string is a sequence of bytes; it is modelled as a \<^typ>\<open>string\<close>, one
  \<^typ>\<open>char\<close> per byte. The functions of package strings that the engine calls
  read the bytes as UTF-8 and split on the white space of unicode.IsSpace: the six
  ASCII spaces, U+0085, U+00A0, U+1680, U+2000 to U+200A, U+2028, U+2029, U+202F,
  U+205F and U+3000. \<open>spaceWidth s\<close> is the number of bytes of the white-space rune
  that \<open>s\<close> starts with, and 0 when \<open>s\<close> starts with none. No byte inside the
  encoding of another rune starts one of these encodings (they start with an ASCII
  byte or one of C2, E1, E2, E3, never with a continuation byte), so looking for them
  at every byte offset finds exactly the white-space runes that a decoder finds.
\<close>

definition byte :: "char \<Rightarrow> nat" where
  "byte c = of_char c"

definition asciiSpace :: "char \<Rightarrow> bool" where
  "asciiSpace c = (byte c = 0x20 \<or> (0x09 \<le> byte c \<and> byte c \<le> 0x0D))"

definition isContinuation :: "char \<Rightarrow> bool" where
  "isContinuation c = (0x80 \<le> byte c \<and> byte c \<le> 0xBF)"

fun spaceWidth :: "string \<Rightarrow> nat" where
  "spaceWidth [] = 0"
| "spaceWidth [c] = (if asciiSpace c then 1 else 0)"
| "spaceWidth [c, d] =
     (if asciiSpace c then 1
      else if byte c = 0xC2 \<and> (byte d = 0x85 \<or> byte d = 0xA0) then 2
      else 0)"
| "spaceWidth (c # d # e # r) =
     (if asciiSpace c then 1
      else if byte c = 0xC2 \<and> (byte d = 0x85 \<or> byte d = 0xA0) then 2
      else if byte c = 0xE1 \<and> byte d = 0x9A \<and> byte e = 0x80 then 3
      else if byte c = 0xE2 \<and> byte d = 0x80 \<and>
              ((0x80 \<le> byte e \<and> byte e \<le> 0x8A) \<or> byte e = 0xA8 \<or> byte e = 0xA9 \<or> byte e = 0xAF)
        then 3
      else if byte c = 0xE2 \<and> byte d = 0x81 \<and> byte e = 0x9F then 3
      else if byte c = 0xE3 \<and> byte d = 0x80 \<and> byte e = 0x80 then 3
      else 0)"

text \<open>
  strings.Fields: the maximal runs of bytes between white-space runes. The scan keeps
  the word read so far and the number of bytes of the current white-space rune still
  to skip.
\<close>

definition flush :: "string \<Rightarrow> string list" where
  "flush cur = (if cur = [] then [] else [cur])"

fun fieldsScan :: "nat \<Rightarrow> string \<Rightarrow> string \<Rightarrow> string list" where
  "fieldsScan k cur [] = flush cur"
| "fieldsScan (Suc k) cur (c # cs) = fieldsScan k cur cs"
| "fieldsScan 0 cur (c # cs) =
     (case spaceWidth (c # cs) of
        0 \<Rightarrow> fieldsScan 0 (cur @ [c]) cs
      | Suc k \<Rightarrow> flush cur @ fieldsScan k [] cs)"

definition Fields :: "string \<Rightarrow> string list" where
  "Fields s = fieldsScan 0 [] s"

text \<open>strings.Join.\<close>

fun Join :: "string list \<Rightarrow> string \<Rightarrow> string" where
  "Join [] sep = []"
| "Join [x] sep = x"
| "Join (x # y # ys) sep = x @ sep @ Join (y # ys) sep"

text \<open>
  strings.TrimSpace: white-space runes are removed from the left, then from the right.
  \<open>spaceSuffix s\<close> is the number of bytes of the white-space rune that \<open>s\<close> ends with.
\<close>

function trimLeft :: "string \<Rightarrow> string" where
  "trimLeft s = (if spaceWidth s = 0 then s else trimLeft (drop (spaceWidth s) s))"
  by pat_completeness auto
termination
proof (relation "measure length")
  fix s :: string
  assume "spaceWidth s \<noteq> 0"
  then have "s \<noteq> []" by auto
  with \<open>spaceWidth s \<noteq> 0\<close> show "(drop (spaceWidth s) s, s) \<in> measure length" by simp
qed simp

declare trimLeft.simps [simp del]

definition lastBytes :: "nat \<Rightarrow> string \<Rightarrow> string" where
  "lastBytes n s = drop (length s - n) s"

definition spaceSuffix :: "string \<Rightarrow> nat" where
  "spaceSuffix s =
     (if 1 \<le> length s \<and> spaceWidth (lastBytes 1 s) = 1 then 1
      else if 2 \<le> length s \<and> spaceWidth (lastBytes 2 s) = 2 then 2
      else if 3 \<le> length s \<and> spaceWidth (lastBytes 3 s) = 3 then 3
      else 0)"

function trimRight :: "string \<Rightarrow> string" where
  "trimRight s = (if spaceSuffix s = 0 then s else trimRight (take (length s - spaceSuffix s) s))"
  by pat_completeness auto
termination
  by (relation "measure length") (auto simp: spaceSuffix_def split: if_splits)

declare trimRight.simps [simp del]

definition TrimSpace :: "string \<Rightarrow> string" where
  "TrimSpace s = trimRight (trimLeft s)"

section \<open>Errors and panics\<close>

text \<open>
  An error value that a function of the engine returns: the two errors the engine makes
  itself, and \<open>Upstream\<close> with the message of an error that a provider, a fetch, the
  URL parser or the storage driver returned. A run-time panic of the Go program is a
  value of its own type, since no caller handles it as an error.
\<close>

datatype error =
    EmptyQuery
  | ExpectURLs
  | Upstream string

datatype panic =
    SliceBounds
  | IndexOutOfRange
  | MakeSliceCap
  | NilDereference

section \<open>Chunker\<close>

text \<open>
  \<open>words[i:end]\<close> for \<open>0 \<le> i \<le> end \<le> len(words)\<close>; the caller checks the bounds.
\<close>

definition slice :: "'a list \<Rightarrow> int \<Rightarrow> int \<Rightarrow> 'a list" where
  "slice xs i j = take (nat j - nat i) (drop (nat i) xs)"

text \<open>
  The loop of splitIntoChunks, with the loop variable \<open>i\<close> and the chunks appended so
  far. Go's \<open>int\<close> is modelled as \<^typ>\<open>int\<close>: \<open>i + wordsPerChunk\<close> is computed only for
  \<open>i < len(words)\<close>, and a slice of more than \<open>2^62\<close> strings does not fit in memory.
  A slice expression with \<open>end < i\<close> panics. With \<open>wordsPerChunk = 0\<close> and at least one
  word the loop never ends: the model then has the value \<open>None\<close>.
\<close>

partial_function (option) splitLoop ::
  "string list \<Rightarrow> int \<Rightarrow> int \<Rightarrow> string list \<Rightarrow> (panic + string list) option" where
  "splitLoop words wordsPerChunk i chunks =
     (if i < int (length words) then
        (let end = (if i + wordsPerChunk > int (length words) then int (length words)
                    else i + wordsPerChunk)
         in if end < i \<or> i < 0 then Some (Inl SliceBounds)
            else splitLoop words wordsPerChunk (i + wordsPerChunk)
                   (chunks @ [Join (slice words i end) '' '']))
      else Some (Inr chunks))"

declare splitLoop.simps [code]

definition splitIntoChunks :: "string \<Rightarrow> int \<Rightarrow> (panic + string list) option" where
  "splitIntoChunks text wordsPerChunk = splitLoop (Fields text) wordsPerChunk 0 []"

text \<open>
  The specification's words: consecutive windows of exactly \<open>w\<close> words, the final window
  possibly shorter, in the original order.
\<close>

function windows :: "nat \<Rightarrow> 'a list \<Rightarrow> 'a list list" where
  "windows w xs = (if w = 0 \<or> xs = [] then [] else take w xs # windows w (drop w xs))"
  by pat_completeness auto
termination
  by (relation "measure (\<lambda>(w, xs). length xs)") auto

declare windows.simps [simp del]

section \<open>More of package strings, and number formatting\<close>

fun Contains :: "string \<Rightarrow> string \<Rightarrow> bool" where
  "Contains [] sub = (sub = [])"
| "Contains (c # cs) sub = (prefix sub (c # cs) \<or> Contains cs sub)"

definition HasPrefix :: "string \<Rightarrow> string \<Rightarrow> bool" where
  "HasPrefix s p = prefix p s"

definition HasSuffix :: "string \<Rightarrow> string \<Rightarrow> bool" where
  "HasSuffix s x = suffix x s"

text \<open>strings.ToLower on the ASCII letters; the other bytes are left as they are.\<close>

definition lowerByte :: "char \<Rightarrow> char" where
  "lowerByte c = (if 0x41 \<le> byte c \<and> byte c \<le> 0x5A then char_of (byte c + 0x20) else c)"

definition ToLower :: "string \<Rightarrow> string" where
  "ToLower s = map lowerByte s"

text \<open>
  strings.LastIndex: the largest offset at which \<open>sub\<close> occurs in \<open>s\<close>, and \<open>-1\<close> when
  it does not occur.
\<close>

definition LastIndex :: "string \<Rightarrow> string \<Rightarrow> int" where
  "LastIndex s sub =
     (case filter (\<lambda>i. prefix sub (drop i s)) (rev [0 ..< Suc (length s)]) of
        [] \<Rightarrow> -1
      | i # _ \<Rightarrow> int i)"

text \<open>strings.Split on a separator of one byte.\<close>

fun splitOn :: "char \<Rightarrow> string \<Rightarrow> string \<Rightarrow> string list" where
  "splitOn sep cur [] = [cur]"
| "splitOn sep cur (c # cs) =
     (if c = sep then cur # splitOn sep [] cs else splitOn sep (cur @ [c]) cs)"

definition Split :: "string \<Rightarrow> char \<Rightarrow> string list" where
  "Split s sep = splitOn sep [] s"

text \<open>Decimal digits: the verb \<open>%d\<close> on a number that is not negative.\<close>

definition digit :: "nat \<Rightarrow> char" where
  "digit d = char_of (0x30 + d)"

definition isDigit :: "char \<Rightarrow> bool" where
  "isDigit c = (0x30 \<le> byte c \<and> byte c \<le> 0x39)"

definition digitValue :: "char \<Rightarrow> nat" where
  "digitValue c = byte c - 0x30"

fun decimal :: "nat \<Rightarrow> string" where
  "decimal n = (if n < 10 then [digit n] else decimal (n div 10) @ [digit (n mod 10)])"

declare decimal.simps [simp del]

definition digitsValue :: "string \<Rightarrow> nat" where
  "digitsValue ds = foldl (\<lambda>acc c. acc * 10 + digitValue c) 0 ds"

text \<open>
  The verb \<open>%.3f\<close>. A similarity is a float64 in the program and a \<^typ>\<open>real\<close> here:
  the arithmetic of the model is exact. strconv prints the decimal expansion of the
  value rounded to three decimals, a tie going to the even neighbour, with the sign
  of the value.
\<close>

definition roundHalfEven :: "real \<Rightarrow> int" where
  "roundHalfEven y =
     (let f = \<lfloor>y\<rfloor>; d = y - of_int f
      in if d < 1 / 2 then f
         else if 1 / 2 < d then f + 1
         else if even f then f else f + 1)"

definition thousandths :: "real \<Rightarrow> nat" where
  "thousandths x = nat (roundHalfEven (\<bar>x\<bar> * 1000))"

definition formatF3 :: "real \<Rightarrow> string" where
  "formatF3 x =
     (let t = thousandths x
      in (if x < 0 then ''-'' else []) @ decimal (t div 1000) @ ''.'' @
         [digit (t div 100 mod 10), digit (t div 10 mod 10), digit (t mod 10)])"

text \<open>
  \<open>fmt.Sscanf(str, "%f)", &s)\<close> on a variable \<open>s\<close> that holds 0: blanks are skipped, then
  a sign, digits, a point with digits and an exponent are read, and \<open>s\<close> receives their
  value; when no number is read \<open>s\<close> keeps 0. The literal \<open>)\<close> of the format is matched
  after \<open>s\<close> was assigned, so it has no effect on \<open>s\<close>. The hexadecimal forms, the digit
  separator and the words NaN and Inf, which the verb reads too, are left out: \<open>%.3f\<close>
  prints none of them for a finite value.
\<close>

definition takeSign :: "string \<Rightarrow> bool \<times> string" where
  "takeSign s =
     (case s of
        [] \<Rightarrow> (False, s)
      | c # r \<Rightarrow> if c = CHR ''-'' then (True, r) else if c = CHR ''+'' then (False, r) else (False, s))"

definition skipBlanks :: "string \<Rightarrow> string" where
  "skipBlanks s = dropWhile (\<lambda>c. c = CHR '' '' \<or> byte c = 0x09) s"

text \<open>The digits after a point, if a point comes next, and what follows them.\<close>

definition scanFraction :: "string \<Rightarrow> string \<times> string" where
  "scanFraction s =
     (if s \<noteq> [] \<and> hd s = CHR ''.'' then (takeWhile isDigit (tl s), dropWhile isDigit (tl s))
      else ([], s))"

text \<open>Whether an exponent comes next, whether it is negative, and its digits.\<close>

definition scanExponent :: "string \<Rightarrow> bool \<times> bool \<times> string" where
  "scanExponent s =
     (if s \<noteq> [] \<and> (hd s = CHR ''e'' \<or> hd s = CHR ''E'')
      then (True, fst (takeSign (tl s)), takeWhile isDigit (snd (takeSign (tl s))))
      else (False, False, []))"

definition scanFloat :: "string \<Rightarrow> real" where
  "scanFloat str =
     (let (neg, s1) = takeSign (skipBlanks str);
          ip = takeWhile isDigit s1;
          (fp, s3) = scanFraction (dropWhile isDigit s1);
          (hasExp, eneg, ep) = scanExponent s3;
          m = real (digitsValue ip) + real (digitsValue fp) / 10 ^ length fp;
          v = (if \<not> hasExp then m
               else if eneg then m / 10 ^ digitsValue ep else m * 10 ^ digitsValue ep)
      in if (ip = [] \<and> fp = []) \<or> (hasExp \<and> ep = []) then 0
         else if neg then - v else v)"

section \<open>Vector math\<close>

type_synonym vec = "real list"

text \<open>
  The loop of cosine, \<open>for i := range a\<close>, with the three sums. Reading \<open>b[i]\<close> beyond
  the end of \<open>b\<close> panics; components of \<open>b\<close> beyond the length of \<open>a\<close> are not read.
\<close>

fun cosineLoop :: "vec \<Rightarrow> vec \<Rightarrow> real \<times> real \<times> real \<Rightarrow> panic + real \<times> real \<times> real" where
  "cosineLoop [] b acc = Inr acc"
| "cosineLoop (av # a) [] acc = Inl IndexOutOfRange"
| "cosineLoop (av # a) (bv # b) (dot, na, nb) =
     cosineLoop a b (dot + av * bv, na + av * av, nb + bv * bv)"

definition cosine :: "vec \<Rightarrow> vec \<Rightarrow> panic + real" where
  "cosine a b =
     (case cosineLoop a b (0, 0, 0) of
        Inl p \<Rightarrow> Inl p
      | Inr (dot, na, nb) \<Rightarrow>
          Inr (if na = 0 \<or> nb = 0 then 0 else dot / (sqrt na * sqrt nb)))"

text \<open>The specification's words: the dot product and the Euclidean norm.\<close>

definition dotProduct :: "vec \<Rightarrow> vec \<Rightarrow> real" where
  "dotProduct a b = sum_list (map2 (*) a b)"

definition sumSquares :: "vec \<Rightarrow> real" where
  "sumSquares a = sum_list (map (\<lambda>x. x * x) a)"

definition norm2 :: "vec \<Rightarrow> real" where
  "norm2 a = sqrt (sumSquares a)"

definition cosineSimilarity :: "vec \<Rightarrow> vec \<Rightarrow> real" where
  "cosineSimilarity a b =
     (if norm2 a = 0 \<or> norm2 b = 0 then 0 else dotProduct a b / (norm2 a * norm2 b))"

section \<open>Data model\<close>

text \<open>
  The rows of the two tables. The column \<open>vector\<close> holds the floats that the engine
  wrote: blobToFloats reads back what floatsToBlob wrote, four bytes per float.
\<close>

record document =
  docId :: int
  docTitle :: string
  docUrl :: string
  docContent :: string

record embedding =
  document_id :: int
  position :: int
  vector :: vec
  snippet :: string

record docChunk =
  ID :: int
  Title :: string
  URL :: string
  Snippet :: string
  Content :: string
  Vector :: vec

record ModelIdentifiers =
  CompletionModel :: string
  EmbeddingModel :: string

record Citation =
  CitationTitle :: string
  CitationURL :: string
  Span :: string

text \<open>What extractKialiSections returns for one section.\<close>

record extractedSection =
  SectionTitle :: string
  SectionID :: string
  SectionContent :: string
  SectionURL :: string

text \<open>
  A fetched page, as far as the crawler reads it: the headings with an id attribute
  inside the content container (text, id, and the texts of the paragraphs that follow
  up to the next heading), the text of the title element, the text of the container,
  and the href attributes of the links of the container.
\<close>

record heading =
  headingText :: string
  headingId :: string
  paragraphs :: "string list"

record page =
  headings :: "heading list"
  titleText :: string
  rootText :: string
  hrefs :: "string list"

text \<open>The SQL statements of the engine, and what the engine asks of the outside.\<close>

datatype stmt =
    SelectDuplicateIds
  | DeleteEmbeddings int
  | DeleteDocument int
  | CountDocuments string
  | InsertDocument string string string
  | InsertEmbedding int int vec string
  | SelectChunks
  | SelectNearest vec int

datatype event =
    CallEmbed string
  | CallComplete string
  | GetDoc string
  | GetRaw string
  | ExpandPlaylist string
  | Statement stmt

text \<open>
  The engine: its configuration and its collaborators. The embedding and completion
  providers, the two fetches and the expansion of a playlist are functions of their
  argument that return a value or an error. \<open>driverError\<close> tells for each statement
  whether the storage driver fails on it. \<open>nearest\<close> is the ranking of the
  index-assisted backend: the rows that \<open>ORDER BY vector <=> q LIMIT k\<close> selects.
  \<open>resolveReference base href\<close> is the string of net/url's ResolveReference.
\<close>

record engine =
  backend :: string
  models :: ModelIdentifiers
  embedProvider :: "string \<Rightarrow> error + vec"
  completionProvider :: "string \<Rightarrow> error + string"
  httpGetDoc :: "string \<Rightarrow> error + page"
  httpGetRaw :: "string \<Rightarrow> error + string"
  playlistVideos :: "string \<Rightarrow> error + string list"
  driverError :: "stmt \<Rightarrow> error option"
  nearest :: "(document \<times> embedding) list \<Rightarrow> vec \<Rightarrow> int \<Rightarrow> (document \<times> embedding) list"
  resolveReference :: "string \<Rightarrow> string \<Rightarrow> string"

text \<open>
  The state that the engine changes: the two tables, the last identity that the
  documents table gave out (AUTOINCREMENT, BIGSERIAL), and the calls made so far.
\<close>

record state =
  documents :: "document list"
  embeddings :: "embedding list"
  lastId :: int
  calls :: "event list"

definition logEvent :: "event \<Rightarrow> state \<Rightarrow> state" where
  "logEvent ev st = st\<lparr>calls := calls st @ [ev]\<rparr>"

section \<open>Vector store\<close>

definition deleteEmbeddings :: "int \<Rightarrow> state \<Rightarrow> state" where
  "deleteEmbeddings i st = st\<lparr>embeddings := filter (\<lambda>em. document_id em \<noteq> i) (embeddings st)\<rparr>"

text \<open>\<open>DELETE FROM documents WHERE id=?\<close>, with the number of rows affected.\<close>

definition deleteDocument :: "int \<Rightarrow> state \<Rightarrow> int \<times> state" where
  "deleteDocument i st =
     (int (length (filter (\<lambda>d. docId d = i) (documents st))),
      st\<lparr>documents := filter (\<lambda>d. docId d \<noteq> i) (documents st)\<rparr>)"

definition insertDocument :: "string \<Rightarrow> string \<Rightarrow> string \<Rightarrow> state \<Rightarrow> int \<times> state" where
  "insertDocument title u content st =
     (lastId st + 1,
      st\<lparr>documents := documents st @
            [\<lparr>docId = lastId st + 1, docTitle = title, docUrl = u, docContent = content\<rparr>],
         lastId := lastId st + 1\<rparr>)"

definition insertEmbedding :: "int \<Rightarrow> int \<Rightarrow> vec \<Rightarrow> string \<Rightarrow> state \<Rightarrow> state" where
  "insertEmbedding i pos v snip st =
     st\<lparr>embeddings := embeddings st @
          [\<lparr>document_id = i, position = pos, vector = v, snippet = snip\<rparr>]\<rparr>"

text \<open>
  documentExists: \<open>SELECT COUNT(1) FROM documents WHERE url=?\<close>. When the query fails
  the count keeps 0. The two backends run the same statement in their dialects.
\<close>

definition documentExists :: "engine \<Rightarrow> string \<Rightarrow> state \<Rightarrow> (bool \<times> error option) \<times> state" where
  "documentExists e u st =
     (let st1 = logEvent (Statement (CountDocuments u)) st
      in case driverError e (CountDocuments u) of
           Some err \<Rightarrow> ((False, Some err), st1)
         | None \<Rightarrow> ((0 < length (filter (\<lambda>d. docUrl d = u) (documents st)), None), st1))"

definition minInt :: "int \<Rightarrow> int \<Rightarrow> int" where
  "minInt a b = (if a < b then a else b)"

text \<open>
  The loop of upsertDocument over the chunks: one embedding call and one insert for
  each chunk, stopping at the first error; what was inserted before stays.
\<close>

fun upsertChunks :: "engine \<Rightarrow> int \<Rightarrow> int \<Rightarrow> string list \<Rightarrow> state \<Rightarrow> error option \<times> state" where
  "upsertChunks e docid i [] st = (None, st)"
| "upsertChunks e docid i (ch # chunks) st =
     (let st1 = logEvent (CallEmbed ch) st
      in case embedProvider e ch of
           Inl err \<Rightarrow> (Some err, st1)
         | Inr emb \<Rightarrow>
             (let snip = take (nat (minInt 160 (int (length ch)))) ch;
                  st2 = logEvent (Statement (InsertEmbedding docid i emb snip)) st1
              in case driverError e (InsertEmbedding docid i emb snip) of
                   Some err \<Rightarrow> (Some err, st2)
                 | None \<Rightarrow> upsertChunks e docid (i + 1) chunks (insertEmbedding docid i emb snip st2)))"

text \<open>
  upsertDocument. The two backends run the same statements in their dialects. The
  chunker comes first: a value \<open>None\<close> is a chunker that does not return.
\<close>

definition upsertDocument ::
  "engine \<Rightarrow> string \<Rightarrow> string \<Rightarrow> string \<Rightarrow> state \<Rightarrow> ((panic + error option) \<times> state) option" where
  "upsertDocument e title docURL content st =
     (case splitIntoChunks content 800 of
        None \<Rightarrow> None
      | Some (Inl p) \<Rightarrow> Some (Inl p, st)
      | Some (Inr chunks) \<Rightarrow>
          (let st1 = logEvent (Statement (InsertDocument title docURL content)) st
           in case driverError e (InsertDocument title docURL content) of
                Some err \<Rightarrow> Some (Inr (Some err), st1)
              | None \<Rightarrow>
                  (let (i, st2) = insertDocument title docURL content st1;
                       (r, st3) = upsertChunks e i 0 chunks st2
                   in Some (Inr r, st3))))"

text \<open>
  Deduplicate. The query selects the identity of every document row that has a row of
  the same URL with a smaller identity. The loop deletes, for each of them, its
  embeddings and then the row; it returns at the first statement that fails. The
  list gives the state after each statement that succeeded.
\<close>

definition duplicateIds :: "state \<Rightarrow> int list" where
  "duplicateIds st =
     map docId
       (filter (\<lambda>d. \<exists>d2 \<in> set (documents st). docUrl d2 = docUrl d \<and> docId d2 < docId d)
          (documents st))"

fun dedupLoop ::
  "engine \<Rightarrow> int list \<Rightarrow> int \<Rightarrow> state \<Rightarrow> (int \<times> error option) \<times> state \<times> state list" where
  "dedupLoop e [] removed st = ((removed, None), st, [])"
| "dedupLoop e (i # ids) removed st =
     (let st0 = logEvent (Statement (DeleteEmbeddings i)) st
      in case driverError e (DeleteEmbeddings i) of
           Some err \<Rightarrow> ((removed, Some err), st0, [])
         | None \<Rightarrow>
             (let st1 = deleteEmbeddings i st0;
                  st2 = logEvent (Statement (DeleteDocument i)) st1
              in case driverError e (DeleteDocument i) of
                   Some err \<Rightarrow> ((removed, Some err), st2, [st1])
                 | None \<Rightarrow>
                     (let (af, st3) = deleteDocument i st2;
                          (r, st4, trace) = dedupLoop e ids (removed + af) st3
                      in (r, st4, st1 # st3 # trace))))"

definition Deduplicate :: "engine \<Rightarrow> state \<Rightarrow> (int \<times> error option) \<times> state \<times> state list" where
  "Deduplicate e st =
     (let st0 = logEvent (Statement SelectDuplicateIds) st
      in case driverError e SelectDuplicateIds of
           Some err \<Rightarrow> ((0, Some err), st0, [])
         | None \<Rightarrow> dedupLoop e (duplicateIds st0) 0 st0)"

text \<open>Every embedding row refers to a document row.\<close>

definition consistent :: "state \<Rightarrow> bool" where
  "consistent st = (\<forall>em \<in> set (embeddings st). document_id em \<in> docId ` set (documents st))"

text \<open>
  extractScore reads the score back from a snippet: the number that follows the last
  \<open>(sim=\<close>, and \<open>-1\<close> when the snippet has none.
\<close>

definition extractScore :: "string \<Rightarrow> real" where
  "extractScore snip =
     (let idx = LastIndex snip ''(sim=''
      in if idx = -1 then -1 else scanFloat (drop (nat (idx + 5)) snip))"

abbreviation (input) score :: "docChunk \<Rightarrow> real" where
  "score c \<equiv> extractScore (Snippet c)"

text \<open>
  The inner loop of topK, \<open>for j := 1; j < len(items); j++\<close>: the index of the first
  item whose score is the largest. \<open>bestFrom best bestScore j rest\<close> runs it from
  index \<open>j\<close> over the items \<open>rest\<close> that remain.
\<close>

fun bestFrom :: "nat \<Rightarrow> real \<Rightarrow> nat \<Rightarrow> docChunk list \<Rightarrow> nat" where
  "bestFrom best bestScore j [] = best"
| "bestFrom best bestScore j (x # rest) =
     (let s = extractScore (Snippet x)
      in if s > bestScore then bestFrom j s (Suc j) rest
         else bestFrom best bestScore (Suc j) rest)"

text \<open>
  The outer loop, \<open>for i := 0; i < k && len(items) > 0; i++\<close>, by the number of rounds
  \<open>k - i\<close> that remain: the best item is appended to the result and removed from the
  items.
\<close>

fun topKLoop :: "nat \<Rightarrow> docChunk list \<Rightarrow> docChunk list \<Rightarrow> docChunk list" where
  "topKLoop 0 items res = res"
| "topKLoop (Suc n) [] res = res"
| "topKLoop (Suc n) (x # rest) res =
     (let best = bestFrom 0 (extractScore (Snippet x)) 1 rest
      in topKLoop n (take best (x # rest) @ drop (Suc best) (x # rest))
           (res @ [(x # rest) ! best]))"

text \<open>\<open>make([]docChunk, 0, k)\<close> panics when \<open>k\<close> is negative.\<close>

definition topK :: "docChunk list \<Rightarrow> int \<Rightarrow> panic + docChunk list" where
  "topK items k = (if k < 0 then Inl MakeSliceCap else Inr (topKLoop (nat k) items []))"

text \<open>
  The rows of \<open>embeddings e JOIN documents d ON d.id = e.document_id\<close>. The query has
  no ORDER BY; the model takes the rows in the order of the tables.
\<close>

definition joinRows :: "state \<Rightarrow> (document \<times> embedding) list" where
  "joinRows st =
     concat (map (\<lambda>em. map (\<lambda>d. (d, em))
                         (filter (\<lambda>d. docId d = document_id em) (documents st)))
               (embeddings st))"

definition scoredChunk :: "document \<Rightarrow> embedding \<Rightarrow> real \<Rightarrow> docChunk" where
  "scoredChunk d em sim =
     \<lparr>ID = docId d, Title = docTitle d, URL = docUrl d,
      Snippet = snippet em @ '' (sim='' @ formatF3 sim @ '')'',
      Content = [], Vector = vector em\<rparr>"

text \<open>The loop of the linear scan over the rows; cosine may panic.\<close>

fun scanRows :: "vec \<Rightarrow> (document \<times> embedding) list \<Rightarrow> docChunk list \<Rightarrow> panic + docChunk list" where
  "scanRows queryVec [] results = Inr results"
| "scanRows queryVec ((d, em) # rows) results =
     (case cosine (vector em) queryVec of
        Inl p \<Rightarrow> Inl p
      | Inr sim \<Rightarrow> scanRows queryVec rows (results @ [scoredChunk d em sim]))"

text \<open>
  The specification's words for the linear scan: the number that \<open>%.3f\<close> prints for a
  similarity, and the chunks of the rows with their similarity to the query.
\<close>

definition score3 :: "real \<Rightarrow> real" where
  "score3 x = (if x < 0 then - (real (thousandths x) / 1000) else real (thousandths x) / 1000)"

definition scored :: "vec \<Rightarrow> (document \<times> embedding) list \<Rightarrow> docChunk list" where
  "scored queryVec rows =
     map (\<lambda>r. scoredChunk (fst r) (snd r) (cosineSimilarity (vector (snd r)) queryVec)) rows"

definition plainChunk :: "document \<times> embedding \<Rightarrow> docChunk" where
  "plainChunk r =
     \<lparr>ID = docId (fst r), Title = docTitle (fst r), URL = docUrl (fst r),
      Snippet = snippet (snd r), Content = [], Vector = []\<rparr>"

definition search ::
  "engine \<Rightarrow> vec \<Rightarrow> int \<Rightarrow> state \<Rightarrow> (panic + error + docChunk list) \<times> state" where
  "search e queryVec k st =
     (if backend e = ''postgres'' then
        (let st1 = logEvent (Statement (SelectNearest queryVec k)) st
         in case driverError e (SelectNearest queryVec k) of
              Some err \<Rightarrow> (Inr (Inl err), st1)
            | None \<Rightarrow> (Inr (Inr (map plainChunk (nearest e (joinRows st) queryVec k))), st1))
      else
        (let st1 = logEvent (Statement SelectChunks) st
         in case driverError e SelectChunks of
              Some err \<Rightarrow> (Inr (Inl err), st1)
            | None \<Rightarrow>
                (case scanRows queryVec (joinRows st) [] of
                   Inl p \<Rightarrow> (Inl p, st1)
                 | Inr results \<Rightarrow>
                     if int (length results) > k then
                       (case topK results k of
                          Inl p \<Rightarrow> (Inl p, st1)
                        | Inr best \<Rightarrow> (Inr (Inr best), st1))
                     else (Inr (Inr results), st1))))"

section \<open>Answer\<close>

text \<open>
  buildPrompt. The caller's context is the text that json.Marshal gives for it, and
  \<open>None\<close> when the caller gave none.
\<close>

fun promptLines :: "nat \<Rightarrow> docChunk list \<Rightarrow> string" where
  "promptLines i [] = []"
| "promptLines i (d # docs) =
     ''['' @ decimal (i + 1) @ ''] '' @ Title d @ '' - '' @ URL d @ '': '' @ Snippet d @
     [CHR 0x0A] @ promptLines (i + 1) docs"

definition buildPrompt :: "string \<Rightarrow> string option \<Rightarrow> docChunk list \<Rightarrow> string" where
  "buildPrompt query kialiContext docs =
     ''User question:'' @ [CHR 0x0A] @ query @ [CHR 0x0A, CHR 0x0A] @
     ''Relevant context (from Kiali docs and demos):'' @ [CHR 0x0A] @
     promptLines 0 docs @
     (case kialiContext of
        None \<Rightarrow> []
      | Some js \<Rightarrow> [CHR 0x0A] @ ''Kiali data (graphs/metrics JSON):'' @ [CHR 0x0A] @ js) @
     [CHR 0x0A] @ ''Answer step-by-step. Reference sources by URL when relevant.''"

definition citation :: "docChunk \<Rightarrow> Citation" where
  "citation d = \<lparr>CitationTitle = Title d, CitationURL = URL d, Span = Snippet d\<rparr>"

text \<open>
  Answer returns the text, the citations, the model identifiers and the error; the
  model adds the state, whose \<open>calls\<close> tell which calls were made.
\<close>

definition Answer ::
  "engine \<Rightarrow> string \<Rightarrow> string option \<Rightarrow> state \<Rightarrow>
   (panic + string \<times> Citation list \<times> ModelIdentifiers \<times> error option) \<times> state" where
  "Answer e query kialiContext st =
     (if TrimSpace query = [] then (Inr ([], [], models e, Some EmptyQuery), st)
      else
        (let st1 = logEvent (CallEmbed query) st
         in case embedProvider e query of
              Inl err \<Rightarrow> (Inr ([], [], models e, Some err), st1)
            | Inr emb \<Rightarrow>
                (case search e emb 8 st1 of
                   (Inl p, st2) \<Rightarrow> (Inl p, st2)
                 | (Inr (Inl err), st2) \<Rightarrow> (Inr ([], [], models e, Some err), st2)
                 | (Inr (Inr docs), st2) \<Rightarrow>
                     (let prompt = buildPrompt query kialiContext docs;
                          st3 = logEvent (CallComplete prompt) st2
                      in case completionProvider e prompt of
                           Inl err \<Rightarrow> (Inr ([], [], models e, Some err), st3)
                         | Inr answer \<Rightarrow>
                             (Inr (answer, map citation docs, models e, None), st3)))))"

section \<open>URLs\<close>

text \<open>
  net/url, as far as the crawler reads a URL: Parse splits a string into scheme,
  opaque part, user, host, path, query and fragment, and String puts them together
  again. Percent-escapes are kept as they are written, and the host is not checked
  for a port or an address in brackets.
\<close>

record url =
  Scheme :: string
  Opaque :: string
  User :: "string option"
  Host :: string
  Path :: string
  ForceQuery :: bool
  RawQuery :: string
  Fragment :: string

definition cutAt :: "char \<Rightarrow> string \<Rightarrow> string \<times> string" where
  "cutAt c s = (takeWhile (\<lambda>x. x \<noteq> c) s, drop 1 (dropWhile (\<lambda>x. x \<noteq> c) s))"

definition isLetter :: "char \<Rightarrow> bool" where
  "isLetter c = ((0x41 \<le> byte c \<and> byte c \<le> 0x5A) \<or> (0x61 \<le> byte c \<and> byte c \<le> 0x7A))"

definition containsCTL :: "string \<Rightarrow> bool" where
  "containsCTL s = (\<exists>c \<in> set s. byte c < 0x20 \<or> byte c = 0x7F)"

fun getScheme :: "nat \<Rightarrow> string \<Rightarrow> string \<Rightarrow> error + string \<times> string" where
  "getScheme i rawURL [] = Inr ([], rawURL)"
| "getScheme i rawURL (c # cs) =
     (if isLetter c then getScheme (Suc i) rawURL cs
      else if isDigit c \<or> c = CHR ''+'' \<or> c = CHR ''-'' \<or> c = CHR ''.'' then
        (if i = 0 then Inr ([], rawURL) else getScheme (Suc i) rawURL cs)
      else if c = CHR '':'' then
        (if i = 0 then Inl (Upstream ''missing protocol scheme'') else Inr (take i rawURL, cs))
      else Inr ([], rawURL))"

definition splitAuthority :: "string \<Rightarrow> string option \<times> string" where
  "splitAuthority authority =
     (let i = LastIndex authority ''@''
      in if i < 0 then (None, authority)
         else (Some (take (nat i) authority), drop (nat i + 1) authority))"

definition urlParse :: "string \<Rightarrow> error + url" where
  "urlParse rawURL =
     (let (u, frag) = cutAt (CHR ''#'') rawURL;
          blank = \<lparr>Scheme = [], Opaque = [], User = None, Host = [], Path = [],
                   ForceQuery = False, RawQuery = [], Fragment = frag\<rparr>
      in if containsCTL u then Inl (Upstream ''invalid control character in URL'')
         else if u = ''*'' then Inr (blank\<lparr>Path := ''*''\<rparr>)
         else
           (case getScheme 0 u u of
              Inl err \<Rightarrow> Inl err
            | Inr (scheme, rest0) \<Rightarrow>
                (let force = (HasSuffix rest0 ''?'' \<and> length (filter (\<lambda>c. c = CHR ''?'') rest0) = 1);
                     rest = (if force then butlast rest0 else fst (cutAt (CHR ''?'') rest0));
                     query = (if force then [] else snd (cutAt (CHR ''?'') rest0));
                     base = blank\<lparr>Scheme := ToLower scheme, ForceQuery := force, RawQuery := query\<rparr>
                 in if \<not> HasPrefix rest ''/'' \<and> Scheme base \<noteq> [] then Inr (base\<lparr>Opaque := rest\<rparr>)
                    else if \<not> HasPrefix rest ''/'' \<and> CHR '':'' \<in> set (fst (cutAt (CHR ''/'') rest)) then
                      Inl (Upstream ''first path segment in URL cannot contain colon'')
                    else if HasPrefix rest ''//'' \<and> (Scheme base \<noteq> [] \<or> \<not> HasPrefix rest ''///'') then
                      (let authority = takeWhile (\<lambda>c. c \<noteq> CHR ''/'') (drop 2 rest);
                           path = dropWhile (\<lambda>c. c \<noteq> CHR ''/'') (drop 2 rest)
                       in Inr (base\<lparr>User := fst (splitAuthority authority),
                                    Host := snd (splitAuthority authority), Path := path\<rparr>))
                    else Inr (base\<lparr>Path := rest\<rparr>))))"

definition urlString :: "url \<Rightarrow> string" where
  "urlString u =
     (let s1 = (if Scheme u \<noteq> [] then Scheme u @ '':'' else []);
          s2 = (if Opaque u \<noteq> [] then s1 @ Opaque u
                else
                  (let s3 = (if (Scheme u \<noteq> [] \<or> Host u \<noteq> [] \<or> User u \<noteq> None) \<and>
                                (Host u \<noteq> [] \<or> Path u \<noteq> [] \<or> User u \<noteq> None)
                             then s1 @ ''//'' @ (case User u of None \<Rightarrow> [] | Some w \<Rightarrow> w @ ''@'') @ Host u
                             else s1);
                       s4 = (if Path u \<noteq> [] \<and> hd (Path u) \<noteq> CHR ''/'' \<and> Host u \<noteq> [] then s3 @ ''/''
                             else s3);
                       s5 = (if s4 = [] \<and> CHR '':'' \<in> set (fst (cutAt (CHR ''/'') (Path u))) then ''./''
                             else s4)
                   in s5 @ Path u));
          s6 = (if ForceQuery u \<or> RawQuery u \<noteq> [] then s2 @ ''?'' @ RawQuery u else s2)
      in if Fragment u \<noteq> [] then s6 @ ''#'' @ Fragment u else s6)"

section \<open>Site crawler\<close>

definition shouldCrawl :: "string \<Rightarrow> bool" where
  "shouldCrawl u =
     (case urlParse u of
        Inl err \<Rightarrow> False
      | Inr parsed \<Rightarrow>
          if Host parsed = [] then False
          else if \<not> Contains (Host parsed) ''kiali.io'' then False
          else if \<not> Contains (Path parsed) ''/docs/'' then False
          else
            (let lower = ToLower (Path parsed)
             in if HasSuffix lower ''.png'' \<or> HasSuffix lower ''.jpg'' \<or> HasSuffix lower ''.jpeg'' \<or>
                   HasSuffix lower ''.gif'' \<or> HasSuffix lower ''.svg'' \<or> HasSuffix lower ''.ico'' \<or>
                   HasSuffix lower ''.pdf'' \<or> HasSuffix lower ''.zip''
                then False
                else if Contains lower ''/tag/'' \<or> Contains lower ''/category/'' then False
                else True))"

text \<open>
  resolveURL. A base that does not parse leaves a nil pointer, which ResolveReference
  dereferences.
\<close>

definition resolveURL :: "engine \<Rightarrow> string \<Rightarrow> string \<Rightarrow> panic + string" where
  "resolveURL e baseURL href =
     (case urlParse href of
        Inl err \<Rightarrow> Inr href
      | Inr u \<Rightarrow>
          if Scheme u \<noteq> [] then Inr (urlString u)
          else (case urlParse baseURL of
                  Inl err \<Rightarrow> Inl NilDereference
                | Inr b \<Rightarrow> Inr (resolveReference e baseURL href)))"

fun collectLinks :: "engine \<Rightarrow> string \<Rightarrow> string list \<Rightarrow> string list \<Rightarrow> panic + string list" where
  "collectLinks e currURL [] out = Inr out"
| "collectLinks e currURL (href # others) out =
     (if href = [] then collectLinks e currURL others out
      else if HasPrefix href ''#'' then collectLinks e currURL others out
      else if HasPrefix href ''mailto:'' \<or> HasPrefix href ''javascript:'' then
        collectLinks e currURL others out
      else
        (case resolveURL e currURL href of
           Inl p \<Rightarrow> Inl p
         | Inr link \<Rightarrow>
             if shouldCrawl link then collectLinks e currURL others (out @ [link])
             else collectLinks e currURL others out))"

definition collectKialiLinks :: "engine \<Rightarrow> page \<Rightarrow> string \<Rightarrow> panic + string list" where
  "collectKialiLinks e doc currURL = collectLinks e currURL (hrefs doc) []"

definition paragraphText :: "string list \<Rightarrow> string" where
  "paragraphText ps =
     concat (map (\<lambda>p. if TrimSpace p = [] then [] else TrimSpace p @ [CHR 0x0A, CHR 0x0A]) ps)"

definition headingSection :: "string \<Rightarrow> heading \<Rightarrow> extractedSection list" where
  "headingSection currURL h =
     (if TrimSpace (headingText h) = [] then []
      else [\<lparr>SectionTitle = TrimSpace (headingText h), SectionID = headingId h,
             SectionContent = TrimSpace (paragraphText (paragraphs h)),
             SectionURL = (if headingId h \<noteq> [] then currURL @ ''#'' @ headingId h else currURL)\<rparr>])"

definition extractKialiSections :: "page \<Rightarrow> string \<Rightarrow> extractedSection list" where
  "extractKialiSections doc currURL =
     (if headings doc \<noteq> [] then concat (map (headingSection currURL) (headings doc))
      else [\<lparr>SectionTitle = TrimSpace (titleText doc), SectionID = [],
             SectionContent = TrimSpace (rootText doc), SectionURL = currURL\<rparr>])"

text \<open>
  The body of the loop over the sections of a page, with the two counters, and the
  loop. A panic ends the run; an error of upsertDocument is logged and the loop goes on.
\<close>

definition ingestSection ::
  "engine \<Rightarrow> extractedSection \<Rightarrow> int \<times> int \<Rightarrow> state \<Rightarrow> ((panic + int \<times> int) \<times> state) option" where
  "ingestSection e sec counters st =
     (let (ingested, skipped) = counters
      in if int (length (TrimSpace (SectionContent sec))) < 10 then Some (Inr (ingested, skipped), st)
         else
           (let (found, st1) = documentExists e (SectionURL sec) st
            in if fst found then Some (Inr (ingested, skipped + 1), st1)
               else
                 (case upsertDocument e (SectionTitle sec) (SectionURL sec) (SectionContent sec) st1 of
                    None \<Rightarrow> None
                  | Some (Inl p, st2) \<Rightarrow> Some (Inl p, st2)
                  | Some (Inr (Some upErr), st2) \<Rightarrow> Some (Inr (ingested, skipped), st2)
                  | Some (Inr None, st2) \<Rightarrow> Some (Inr (ingested + 1, skipped), st2))))"

fun ingestSections ::
  "engine \<Rightarrow> extractedSection list \<Rightarrow> int \<times> int \<Rightarrow> state \<Rightarrow> ((panic + int \<times> int) \<times> state) option" where
  "ingestSections e [] counters st = Some (Inr counters, st)"
| "ingestSections e (sec # secs) counters st =
     (case ingestSection e sec counters st of
        None \<Rightarrow> None
      | Some (Inl p, st1) \<Rightarrow> Some (Inl p, st1)
      | Some (Inr counters1, st1) \<Rightarrow> ingestSections e secs counters1 st1)"

text \<open>
  The loop of IngestKialiDocs over the queue, with the visited set, the queue, the
  two counters and the state. The crawl has no bound: where it does not end, the
  value is \<open>None\<close>.
\<close>

partial_function (option) crawlLoop ::
  "engine \<Rightarrow> string set \<Rightarrow> string list \<Rightarrow> int \<times> int \<Rightarrow> state \<Rightarrow>
   ((panic + int \<times> int) \<times> state) option" where
  "crawlLoop e visited queue counters st =
     (case queue of
        [] \<Rightarrow> Some (Inr counters, st)
      | currURL # rest \<Rightarrow>
          if currURL \<in> visited then crawlLoop e visited rest counters st
          else if \<not> Contains currURL ''kiali.io'' then crawlLoop e (insert currURL visited) rest counters st
          else
            (case httpGetDoc e currURL of
               Inl err \<Rightarrow> crawlLoop e (insert currURL visited) rest counters (logEvent (GetDoc currURL) st)
             | Inr doc \<Rightarrow>
                 (case ingestSections e (extractKialiSections doc currURL) counters
                         (logEvent (GetDoc currURL) st) of
                    None \<Rightarrow> None
                  | Some (Inl p, st1) \<Rightarrow> Some (Inl p, st1)
                  | Some (Inr counters1, st1) \<Rightarrow>
                      (case collectKialiLinks e doc currURL of
                         Inl p \<Rightarrow> Some (Inl p, st1)
                       | Inr links \<Rightarrow>
                           crawlLoop e (insert currURL visited)
                             (rest @ filter (\<lambda>link. Contains link ''kiali.io'' \<and>
                                               link \<notin> insert currURL visited \<and> shouldCrawl link) links)
                             counters1 st1))))"

declare crawlLoop.simps [code]

text \<open>
  The URL that seeds the queue: the parsed base, with the scheme https and the host
  kiali.io where the base has none.
\<close>

definition startURL :: "url \<Rightarrow> string" where
  "startURL u0 =
     (let u1 = (if Scheme u0 = [] then u0\<lparr>Scheme := ''https''\<rparr> else u0);
          u = (if Host u1 = [] then u1\<lparr>Host := ''kiali.io''\<rparr> else u1)
      in urlString u)"

definition IngestKialiDocs ::
  "engine \<Rightarrow> string \<Rightarrow> state \<Rightarrow> ((panic + int \<times> int \<times> error option) \<times> state) option" where
  "IngestKialiDocs e base st =
     (case urlParse base of
        Inl err \<Rightarrow> Some (Inr (0, 0, Some err), st)
      | Inr u0 \<Rightarrow>
          (case crawlLoop e {} [startURL u0] (0, 0) st of
             None \<Rightarrow> None
           | Some (Inl p, st1) \<Rightarrow> Some (Inl p, st1)
           | Some (Inr (ingested, skipped), st1) \<Rightarrow> Some (Inr (ingested, skipped, None), st1)))"

text \<open>The URLs that the crawler fetched, in the order of the calls.\<close>

definition fetched :: "event list \<Rightarrow> string list" where
  "fetched evs = concat (map (\<lambda>ev. case ev of GetDoc u \<Rightarrow> [u] | _ \<Rightarrow> []) evs)"

section \<open>Media-list expander\<close>

definition isYouTubePlaylistURL :: "string \<Rightarrow> bool" where
  "isYouTubePlaylistURL u =
     (Contains u ''youtube.com/playlist'' \<or> (Contains u ''list='' \<and> Contains u ''youtube.com''))"

text \<open>
  The loop that expands the playlists. expandPlaylist, with its calls to the listing
  API and to the playlist page, is the function \<open>playlistVideos\<close> of the engine; its
  error is logged and the URL dropped.
\<close>

fun expandAll :: "engine \<Rightarrow> string list \<Rightarrow> string list \<Rightarrow> state \<Rightarrow> string list \<times> state" where
  "expandAll e [] expanded st = (expanded, st)"
| "expandAll e (u # urls) expanded st =
     (if isYouTubePlaylistURL u then
        (case playlistVideos e u of
           Inl err \<Rightarrow> expandAll e urls expanded (logEvent (ExpandPlaylist u) st)
         | Inr vs \<Rightarrow> expandAll e urls (expanded @ vs) (logEvent (ExpandPlaylist u) st))
      else expandAll e urls (expanded @ [u]) st)"

fun firstSeen :: "string set \<Rightarrow> string list \<Rightarrow> string list" where
  "firstSeen seen [] = []"
| "firstSeen seen (v # vs) =
     (if v \<in> seen then firstSeen seen vs else v # firstSeen (insert v seen) vs)"

text \<open>The body of the loop over the resolved URLs, and the loop.\<close>

definition ingestVideo ::
  "engine \<Rightarrow> string \<Rightarrow> int \<times> int \<Rightarrow> state \<Rightarrow> ((panic + int \<times> int) \<times> state) option" where
  "ingestVideo e u counters st =
     (let (ingested, skipped) = counters;
          (found, st1) = documentExists e u st
      in if fst found then Some (Inr (ingested, skipped + 1), st1)
         else
           (case httpGetRaw e u of
              Inl err \<Rightarrow> Some (Inr (ingested, skipped), logEvent (GetRaw u) st1)
            | Inr body \<Rightarrow>
                if int (length body) < 200 then Some (Inr (ingested, skipped), logEvent (GetRaw u) st1)
                else
                  (case upsertDocument e ''YouTube Video'' u body (logEvent (GetRaw u) st1) of
                     None \<Rightarrow> None
                   | Some (Inl p, st2) \<Rightarrow> Some (Inl p, st2)
                   | Some (Inr (Some err), st2) \<Rightarrow> Some (Inr (ingested, skipped), st2)
                   | Some (Inr None, st2) \<Rightarrow> Some (Inr (ingested + 1, skipped), st2))))"

fun ingestVideos ::
  "engine \<Rightarrow> string list \<Rightarrow> int \<times> int \<Rightarrow> state \<Rightarrow> ((panic + int \<times> int) \<times> state) option" where
  "ingestVideos e [] counters st = Some (Inr counters, st)"
| "ingestVideos e (u # us) counters st =
     (case ingestVideo e u counters st of
        None \<Rightarrow> None
      | Some (Inl p, st1) \<Rightarrow> Some (Inl p, st1)
      | Some (Inr counters1, st1) \<Rightarrow> ingestVideos e us counters1 st1)"

definition IngestYouTube ::
  "engine \<Rightarrow> string \<Rightarrow> state \<Rightarrow> ((panic + int \<times> int \<times> error option) \<times> state) option" where
  "IngestYouTube e channelOrPlaylistURL st =
     (if \<not> Contains channelOrPlaylistURL ''http'' then Some (Inr (0, 0, Some ExpectURLs), st)
      else
        (let urls = filter (\<lambda>s. s \<noteq> []) (map TrimSpace (Split channelOrPlaylistURL (CHR '','')));
             (expanded, st1) = expandAll e urls [] st;
             final = firstSeen {} expanded
         in case ingestVideos e final (0, 0) st1 of
              None \<Rightarrow> None
            | Some (Inl p, st2) \<Rightarrow> Some (Inl p, st2)
            | Some (Inr (ingested, skipped), st2) \<Rightarrow> Some (Inr (ingested, skipped, None), st2)))"

section \<open>Example data\<close>

text \<open>
  A site of two pages that link to each other, an engine whose embedding provider
  fails on one text, and stores for the examples.
\<close>

definition pageA :: page where
  "pageA =
     \<lparr>headings = [\<lparr>headingText = ''Intro'', headingId = ''intro'',
                     paragraphs = [''Hello world, this is page A.'']\<rparr>],
      titleText = ''A'', rootText = ''A'', hrefs = [''https://kiali.io/docs/b/'']\<rparr>"

definition pageB :: page where
  "pageB =
     \<lparr>headings = [], titleText = ''B'', rootText = ''Page B has some text too.'',
      hrefs = [''https://kiali.io/docs/a/'', ''#top'', ''https://kiali.io/docs/b/'']\<rparr>"

definition demoEngine :: engine where
  "demoEngine =
     \<lparr>backend = ''sqlite'',
      models = \<lparr>CompletionModel = ''gemini-1.5-flash'', EmbeddingModel = ''text-embedding-004''\<rparr>,
      embedProvider = (\<lambda>t. if t = ''fail'' then Inl (Upstream ''embed status 500'') else Inr [1, 0]),
      completionProvider = (\<lambda>p. Inr ''ok''),
      httpGetDoc = (\<lambda>u. if u = ''https://kiali.io/docs/a/'' then Inr pageA
                        else if u = ''https://kiali.io/docs/b/'' then Inr pageB
                        else Inl (Upstream ''status 404'')),
      httpGetRaw = (\<lambda>u. Inl (Upstream ''status 404'')),
      playlistVideos = (\<lambda>u. Inr []),
      driverError = (\<lambda>s. None),
      nearest = (\<lambda>rows q k. take (nat k) rows),
      resolveReference = (\<lambda>b h. h)\<rparr>"

definition emptyState :: state where
  "emptyState = \<lparr>documents = [], embeddings = [], lastId = 0, calls = []\<rparr>"

definition row :: "int \<Rightarrow> string \<Rightarrow> document" where
  "row i u = \<lparr>docId = i, docTitle = ''t'', docUrl = u, docContent = ''c''\<rparr>"

definition chunkRow :: "int \<Rightarrow> vec \<Rightarrow> embedding" where
  "chunkRow i v = \<lparr>document_id = i, position = 0, vector = v, snippet = []\<rparr>"

definition dupState :: state where
  "dupState =
     \<lparr>documents = [row 1 ''u'', row 2 ''v'', row 3 ''u''],
      embeddings = [chunkRow 1 [1], chunkRow 3 [1], chunkRow 2 [1]],
      lastId = 3, calls = []\<rparr>"

text \<open>
  Two stores: one with two chunks, the less similar one first; one with three chunks,
  of which the first two have similarities to \<open>[1, 0]\<close> that differ only after the
  third decimal.
\<close>

definition twoChunks :: state where
  "twoChunks =
     \<lparr>documents = [row 1 ''u'', row 2 ''v''],
      embeddings = [chunkRow 1 [0, 1], chunkRow 2 [1, 0]],
      lastId = 2, calls = []\<rparr>"

definition threeChunks :: state where
  "threeChunks =
     \<lparr>documents = [row 1 ''u'', row 2 ''v'', row 3 ''w''],
      embeddings = [chunkRow 1 [3, 4], chunkRow 2 [1472801, 1961400], chunkRow 3 [0, 1]],
      lastId = 3, calls = []\<rparr>"

section \<open>Properties of the chunker\<close>

subsection \<open>Windows\<close>

lemma windows_Nil [simp]: "windows w [] = []"
  by (simp add: windows.simps)

lemma windows_step: "0 < w \<Longrightarrow> xs \<noteq> [] \<Longrightarrow> windows w xs = take w xs # windows w (drop w xs)"
  by (subst windows.simps) simp

lemma concat_windows: "0 < w \<Longrightarrow> concat (windows w xs) = xs"
proof (induction w xs rule: windows.induct)
  case (1 w xs)
  show ?case
  proof (cases "xs = []")
    case True
    then show ?thesis by simp
  next
    case False
    with 1 show ?thesis by (simp add: windows_step)
  qed
qed

lemma windows_bounds: "0 < w \<Longrightarrow> ws \<in> set (windows w xs) \<Longrightarrow> ws \<noteq> [] \<and> length ws \<le> w"
proof (induction w xs rule: windows.induct)
  case (1 w xs)
  show ?case
  proof (cases "xs = []")
    case True
    with 1 show ?thesis by simp
  next
    case False
    with 1 show ?thesis by (auto simp: windows_step)
  qed
qed

lemma windows_exact:
  "0 < w \<Longrightarrow> Suc i < length (windows w xs) \<Longrightarrow> length (windows w xs ! i) = w"
proof (induction w xs arbitrary: i rule: windows.induct)
  case (1 w xs)
  show ?case
  proof (cases "xs = []")
    case True
    with 1 show ?thesis by simp
  next
    case False
    note ne = this
    have step: "windows w xs = take w xs # windows w (drop w xs)"
      using 1(2) ne by (rule windows_step)
    show ?thesis
    proof (cases i)
      case 0
      have "windows w (drop w xs) \<noteq> []" using 1(3) step by auto
      then have "drop w xs \<noteq> []" by auto
      then have "w < length xs" by simp
      then show ?thesis using 0 step by simp
    next
      case (Suc j)
      have "Suc j < length (windows w (drop w xs))" using 1(3) step Suc by simp
      then have "length (windows w (drop w xs) ! j) = w"
        using 1(1) 1(2) ne by simp
      then show ?thesis using Suc step by simp
    qed
  qed
qed

subsection \<open>The loop of the chunker\<close>

lemma splitLoop_windows:
  assumes "0 < w" and "0 \<le> i"
  shows "splitLoop words w i chunks =
           Some (Inr (chunks @ map (\<lambda>ws. Join ws '' '') (windows (nat w) (drop (nat i) words))))"
  using assms(2)
proof (induction "length words - nat i" arbitrary: i chunks rule: less_induct)
  case less
  show ?case
  proof (cases "i < int (length words)")
    case False
    then have "drop (nat i) words = []" by simp
    with False show ?thesis by (subst splitLoop.simps) simp
  next
    case True
    define e where "e = (if i + w > int (length words) then int (length words) else i + w)"
    have e: "\<not> (e < i \<or> i < 0)" using assms(1) less.prems True by (simp add: e_def)
    have ne: "drop (nat i) words \<noteq> []" using True less.prems by simp
    have sl: "slice words i e = take (nat w) (drop (nat i) words)"
    proof (cases "i + w > int (length words)")
      case True
      then have "length (drop (nat i) words) \<le> nat w" using less.prems by simp
      then show ?thesis using True less.prems by (simp add: slice_def e_def)
    next
      case False
      then have "nat e - nat i = nat w" using less.prems assms(1) by (simp add: e_def)
      then show ?thesis by (simp add: slice_def)
    qed
    have dr: "drop (nat (i + w)) words = drop (nat w) (drop (nat i) words)"
      using less.prems assms(1) by (simp add: nat_add_distrib add.commute)
    have "length words - nat (i + w) < length words - nat i"
      using True less.prems assms(1) by linarith
    then have ih: "splitLoop words w (i + w) (chunks @ [Join (slice words i e) '' '']) =
        Some (Inr ((chunks @ [Join (slice words i e) '' '']) @
          map (\<lambda>ws. Join ws '' '') (windows (nat w) (drop (nat (i + w)) words))))"
      using less.hyps less.prems assms(1) by simp
    have "splitLoop words w i chunks = splitLoop words w (i + w) (chunks @ [Join (slice words i e) '' ''])"
      using True e by (subst splitLoop.simps) (simp add: e_def Let_def)
    also note ih
    finally show ?thesis
      using ne assms(1) by (simp add: windows_step [OF _ ne] sl dr)
  qed
qed

lemma splitIntoChunks_eq:
  "0 < w \<Longrightarrow> splitIntoChunks text w =
     Some (Inr (map (\<lambda>ws. Join ws '' '') (windows (nat w) (Fields text))))"
  by (simp add: splitIntoChunks_def splitLoop_windows)


subsection \<open>White space\<close>

lemma spaceWidth_ascii: "asciiSpace c \<Longrightarrow> spaceWidth (c # r) = 1"
  by (cases "c # r" rule: spaceWidth.cases) auto

lemma spaceWidth_le: "spaceWidth s \<le> length s"
  by (cases s rule: spaceWidth.cases) auto

lemma spaceWidth_pos_start:
  "0 < spaceWidth (c # r) \<Longrightarrow> \<not> isContinuation c"
  by (cases "c # r" rule: spaceWidth.cases)
     (auto simp: isContinuation_def asciiSpace_def split: if_splits)

lemma spaceWidth_append:
  assumes "u \<noteq> []" and "v = [] \<or> \<not> isContinuation (hd v)"
  shows "spaceWidth (u @ v) = spaceWidth u"
proof (cases v)
  case Nil
  then show ?thesis by simp
next
  case (Cons x v')
  with assms(2) have x: "\<not> (0x80 \<le> byte x \<and> byte x \<le> 0xBF)" by (simp add: isContinuation_def)
  show ?thesis
  proof (cases u rule: spaceWidth.cases)
    case 1
    with assms(1) show ?thesis by simp
  next
    case (2 c)
    show ?thesis
    proof (cases v')
      case Nil
      with 2 Cons x show ?thesis by auto
    next
      case (Cons y r)
      with 2 \<open>v = x # v'\<close> x show ?thesis by auto
    qed
  next
    case (3 c d)
    with Cons x show ?thesis by auto
  next
    case (4 c d e r)
    then show ?thesis by simp
  qed
qed

lemma spaceWidth_append_pos: "0 < spaceWidth u \<Longrightarrow> spaceWidth (u @ v) = spaceWidth u"
proof (cases u rule: spaceWidth.cases)
  case 1
  assume "0 < spaceWidth u"
  with 1 show ?thesis by simp
next
  case (2 c)
  assume "0 < spaceWidth u"
  with 2 have "asciiSpace c" by (simp split: if_splits)
  with 2 show ?thesis by (simp add: spaceWidth_ascii)
next
  case (3 c d)
  assume "0 < spaceWidth u"
  with 3 show ?thesis by (cases v) (auto split: if_splits)
next
  case (4 c d e r)
  then show ?thesis by simp
qed

subsection \<open>Fields\<close>

lemma fieldsScan_skip: "k \<le> length cs \<Longrightarrow> fieldsScan k cur cs = fieldsScan 0 cur (drop k cs)"
  by (induction k cur cs rule: fieldsScan.induct) auto

lemma Fields_drop_space: "Fields s = Fields (drop (spaceWidth s) s)"
proof (cases "spaceWidth s")
  case 0
  then show ?thesis by simp
next
  case (Suc k)
  then obtain c cs where s: "s = c # cs" by (cases s) auto
  have "k \<le> length cs" using spaceWidth_le [of s] Suc s by simp
  then have "fieldsScan k [] cs = fieldsScan 0 [] (drop k cs)" by (rule fieldsScan_skip)
  then show ?thesis using Suc s by (simp add: Fields_def flush_def)
qed

lemma Fields_trimLeft: "Fields (trimLeft s) = Fields s"
proof (induction s rule: trimLeft.induct)
  case (1 s)
  show ?case
  proof (cases "spaceWidth s = 0")
    case True
    then show ?thesis by (subst trimLeft.simps) simp
  next
    case False
    with 1 have "Fields (trimLeft (drop (spaceWidth s) s)) = Fields (drop (spaceWidth s) s)" by simp
    moreover have "trimLeft s = trimLeft (drop (spaceWidth s) s)"
      using False by (subst trimLeft.simps) simp
    ultimately show ?thesis using Fields_drop_space [of s] by simp
  qed
qed

lemma spaceWidth_trimLeft: "spaceWidth (trimLeft s) = 0"
proof (induction s rule: trimLeft.induct)
  case (1 s)
  then show ?case by (subst trimLeft.simps) simp
qed

lemma spaceSuffix_le: "spaceSuffix s \<le> length s"
  by (simp add: spaceSuffix_def)

lemma spaceSuffix_width: "0 < spaceSuffix s \<Longrightarrow> spaceWidth (lastBytes (spaceSuffix s) s) = spaceSuffix s"
  by (auto simp: spaceSuffix_def split: if_splits)

lemma trimRight_Nil_start: "trimRight u = [] \<Longrightarrow> u \<noteq> [] \<Longrightarrow> 0 < spaceWidth u"
proof (induction u rule: trimRight.induct)
  case (1 s)
  show ?case
  proof (cases "spaceSuffix s = 0")
    case True
    then have "trimRight s = s" by (subst trimRight.simps) simp
    with 1(2) 1(3) show ?thesis by simp
  next
    case False
    define n where "n = spaceSuffix s"
    have n: "0 < n" "n \<le> length s" using False spaceSuffix_le [of s] by (simp_all add: n_def)
    have w: "spaceWidth (drop (length s - n) s) = n"
      using spaceSuffix_width [of s] False by (simp add: n_def lastBytes_def)
    have "trimRight s = trimRight (take (length s - n) s)"
      using False by (subst trimRight.simps) (simp add: n_def)
    then have tr: "trimRight (take (length s - n) s) = []" using 1(2) by simp
    have split: "s = take (length s - n) s @ drop (length s - n) s" by simp
    show ?thesis
    proof (cases "take (length s - n) s = []")
      case True
      then have "length s - n = 0" using n by auto
      then show ?thesis using w n by simp
    next
      case False
      then have "0 < spaceWidth (take (length s - n) s)"
        using 1(1) \<open>spaceSuffix s \<noteq> 0\<close> tr by (simp add: n_def)
      then have "0 < spaceWidth (take (length s - n) s @ drop (length s - n) s)"
        by (simp only: spaceWidth_append_pos)
      then show ?thesis by (simp only: append_take_drop_id)
    qed
  qed
qed

lemma TrimSpace_Nil_Fields: "TrimSpace text = [] \<Longrightarrow> Fields text = []"
proof -
  assume "TrimSpace text = []"
  then have "trimRight (trimLeft text) = []" by (simp add: TrimSpace_def)
  then have "trimLeft text = []"
    using trimRight_Nil_start [of "trimLeft text"] spaceWidth_trimLeft [of "text"] by auto
  then have "Fields (trimLeft text) = []" by (simp add: Fields_def flush_def)
  then show ?thesis by (simp only: Fields_trimLeft)
qed

text \<open>A word: not empty, and no white-space rune starts inside it.\<close>

lemma fieldsScan_words:
  assumes "k = 0 \<longrightarrow> (\<forall>i<length cur. spaceWidth (drop i cur @ rest) = 0)"
    and "0 < k \<longrightarrow> cur = []"
    and "w \<in> set (fieldsScan k cur rest)"
  shows "w \<noteq> [] \<and> (\<forall>i<length w. spaceWidth (drop i w) = 0)"
  using assms
proof (induction k cur rest rule: fieldsScan.induct)
  case (1 k cur)
  then have w: "w = cur" "cur \<noteq> []" by (auto simp: flush_def split: if_splits)
  with 1 have "k = 0" by auto
  with 1 w show ?case by simp
next
  case (2 k cur c cs)
  then show ?case by simp
next
  case (3 cur c cs)
  show ?case
  proof (cases "spaceWidth (c # cs)")
    case 0
    have inv: "\<forall>i<length (cur @ [c]). spaceWidth (drop i (cur @ [c]) @ cs) = 0"
    proof (intro allI impI)
      fix i assume "i < length (cur @ [c])"
      then consider "i < length cur" | "i = length cur" by fastforce
      then show "spaceWidth (drop i (cur @ [c]) @ cs) = 0"
      proof cases
        case 1
        then show ?thesis using 3(3) by simp
      next
        case 2
        then show ?thesis using 0 by simp
      qed
    qed
    have "w \<in> set (fieldsScan 0 (cur @ [c]) cs)" using 3(5) 0 by simp
    then show ?thesis using 3(1) [OF 0] inv by blast
  next
    case (Suc k)
    then have nc: "\<not> isContinuation c" using spaceWidth_pos_start [of c cs] by simp
    from 3(5) Suc consider "w \<in> set (flush cur)" | "w \<in> set (fieldsScan k [] cs)" by auto
    then show ?thesis
    proof cases
      case 1
      then have w: "w = cur" "cur \<noteq> []" by (auto simp: flush_def split: if_splits)
      have "\<forall>i<length cur. spaceWidth (drop i cur) = 0"
      proof (intro allI impI)
        fix i assume i: "i < length cur"
        then have "spaceWidth (drop i cur @ c # cs) = 0" using 3(3) by simp
        moreover have "spaceWidth (drop i cur @ c # cs) = spaceWidth (drop i cur)"
          using i nc by (intro spaceWidth_append) auto
        ultimately show "spaceWidth (drop i cur) = 0" by simp
      qed
      with w show ?thesis by simp
    next
      case 2
      then show ?thesis using 3(2) [OF Suc] by simp
    qed
  qed
qed

lemma Fields_words:
  "w \<in> set (Fields text) \<Longrightarrow> w \<noteq> [] \<and> (\<forall>i<length w. spaceWidth (drop i w) = 0)"
  using fieldsScan_words [of 0 "[]" "text" w] by (simp add: Fields_def)

lemma fieldsScan_word:
  assumes "\<forall>i<length w. spaceWidth (drop i w) = 0" and "rest = [] \<or> \<not> isContinuation (hd rest)"
  shows "fieldsScan 0 cur (w @ rest) = fieldsScan 0 (cur @ w) rest"
  using assms(1)
proof (induction w arbitrary: cur)
  case Nil
  then show ?case by simp
next
  case (Cons c w)
  have "spaceWidth ((c # w) @ rest) = spaceWidth (c # w)"
    using assms(2) by (intro spaceWidth_append) auto
  moreover have "spaceWidth (c # w) = 0" using Cons.prems by fastforce
  ultimately have z: "spaceWidth (c # w @ rest) = 0" by simp
  have "\<forall>i<length w. spaceWidth (drop i w) = 0"
  proof (intro allI impI)
    fix i assume "i < length w"
    then have "spaceWidth (drop (Suc i) (c # w)) = 0" using Cons.prems by (metis Suc_less_eq length_Cons)
    then show "spaceWidth (drop i w) = 0" by simp
  qed
  then have "fieldsScan 0 (cur @ [c]) (w @ rest) = fieldsScan 0 ((cur @ [c]) @ w) rest"
    by (rule Cons.IH)
  then show ?case using z by simp
qed

lemma Fields_Join:
  assumes "\<forall>w \<in> set ws. w \<noteq> [] \<and> (\<forall>i<length w. spaceWidth (drop i w) = 0)"
  shows "Fields (Join ws '' '') = ws"
  using assms
proof (induction ws "'' ''" rule: Join.induct)
  case 1
  then show ?case by (simp add: Fields_def flush_def)
next
  case (2 x)
  then have "fieldsScan 0 [] (x @ []) = fieldsScan 0 ([] @ x) []"
    by (intro fieldsScan_word) auto
  with 2 show ?case by (simp add: Fields_def flush_def)
next
  case (3 x y ys)
  have sp: "asciiSpace (CHR '' '')" by (simp add: asciiSpace_def byte_def)
  have nc: "\<not> isContinuation (CHR '' '')" by (simp add: isContinuation_def byte_def)
  have "fieldsScan 0 [] (x @ '' '' @ Join (y # ys) '' '') = fieldsScan 0 ([] @ x) ('' '' @ Join (y # ys) '' '')"
    using 3(2) nc by (intro fieldsScan_word) auto
  also have "\<dots> = [x] @ fieldsScan 0 [] (Join (y # ys) '' '')"
    using 3(2) spaceWidth_ascii [OF sp] by (simp add: flush_def)
  also have "fieldsScan 0 [] (Join (y # ys) '' '') = y # ys"
    using 3 by (simp add: Fields_def)
  finally show ?case by (simp add: Fields_def)
qed





lemma Fields_example: "Fields ''a b c d e'' = [''a'', ''b'', ''c'', ''d'', ''e'']"
  by code_simp

lemma windows_example: "windows 2 [''a'', ''b'', ''c'', ''d'', ''e''] = [[''a'', ''b''], [''c'', ''d''], [''e'']]"
  by code_simp

lemma TrimSpace_blank: "TrimSpace ''  '' = []"
  by code_simp

lemma windows_1700:
  assumes "length xs = 1700"
  shows "map length (windows 800 xs) = [800, 800, 100]"
proof -
  have 1: "xs \<noteq> []" using assms by auto
  have 2: "drop 800 xs \<noteq> []" using assms by auto
  have 3: "drop 800 (drop 800 xs) \<noteq> []" using assms by auto
  have 4: "drop 800 (drop 800 (drop 800 xs)) = []" using assms by auto
  have "windows 800 xs = [take 800 xs, take 800 (drop 800 xs), take 800 (drop 800 (drop 800 xs))]"
    using windows_step [OF _ 1, of 800] windows_step [OF _ 2, of 800] windows_step [OF _ 3, of 800] 4
    by simp
  then show ?thesis using assms by simp
qed


lemma Fields_chunk:
  assumes "0 < w" and "ws \<in> set (windows w (Fields text))"
  shows "Fields (Join ws '' '') = ws"
proof (rule Fields_Join, intro ballI)
  fix x assume "x \<in> set ws"
  then have "x \<in> set (concat (windows w (Fields text)))" using assms(2) by auto
  then have "x \<in> set (Fields text)" using assms(1) by (simp add: concat_windows)
  then show "x \<noteq> [] \<and> (\<forall>i<length x. spaceWidth (drop i x) = 0)" by (rule Fields_words)
qed

lemma Fields_chunks:
  assumes "0 < w"
  shows "map Fields (map (\<lambda>ws. Join ws '' '') (windows w (Fields text))) = windows w (Fields text)"
  using Fields_chunk [OF assms] by (simp add: map_idI)

lemma word_a: "\<forall>w \<in> set (replicate n ''a''). w \<noteq> [] \<and> (\<forall>i<length w. spaceWidth (drop i w) = 0)"
  by (simp add: asciiSpace_def byte_def)

lemma Fields_many: "Fields (Join (replicate n ''a'') '' '') = replicate n ''a''"
  using word_a by (rule Fields_Join)

text \<open>
  C5. For a window size \<open>w > 0\<close>, splitIntoChunks returns the windows of the words of the
  text, each joined with single spaces: the windows are consecutive (their concatenation
  is the word sequence), each but the last has exactly \<open>w\<close> words, none is empty or longer
  than \<open>w\<close>; a text that TrimSpace empties gives no chunk; 1,700 words with \<open>w = 800\<close> give
  three chunks of 800, 800 and 100 words.
\<close>

theorem splitIntoChunks_windows:
  assumes "0 < w"
  shows "splitIntoChunks text w = Some (Inr (map (\<lambda>ws. Join ws '' '') (windows (nat w) (Fields text))))
    \<and> concat (windows (nat w) (Fields text)) = Fields text
    \<and> (\<forall>i. Suc i < length (windows (nat w) (Fields text)) \<longrightarrow>
          length (windows (nat w) (Fields text) ! i) = nat w)
    \<and> (\<forall>ws \<in> set (windows (nat w) (Fields text)). ws \<noteq> [] \<and> length ws \<le> nat w)
    \<and> (TrimSpace text = [] \<longrightarrow> splitIntoChunks text w = Some (Inr []))
    \<and> (w = 800 \<and> length (Fields text) = 1700 \<longrightarrow>
         (\<exists>c1 c2 c3. splitIntoChunks text w = Some (Inr [c1, c2, c3]) \<and>
            length (Fields c1) = 800 \<and> length (Fields c2) = 800 \<and> length (Fields c3) = 100))"
proof -
  have pos: "0 < nat w" using assms by simp
  have eq: "splitIntoChunks text w =
      Some (Inr (map (\<lambda>ws. Join ws '' '') (windows (nat w) (Fields text))))"
    using assms by (rule splitIntoChunks_eq)
  have c: "concat (windows (nat w) (Fields text)) = Fields text"
    using pos by (rule concat_windows)
  have ex: "\<forall>i. Suc i < length (windows (nat w) (Fields text)) \<longrightarrow>
      length (windows (nat w) (Fields text) ! i) = nat w"
    using pos by (simp add: windows_exact)
  have bd: "\<forall>ws \<in> set (windows (nat w) (Fields text)). ws \<noteq> [] \<and> length ws \<le> nat w"
    using windows_bounds [OF pos] by blast
  have em: "TrimSpace text = [] \<longrightarrow> splitIntoChunks text w = Some (Inr [])"
    using eq by (simp add: TrimSpace_Nil_Fields)
  have sc: "w = 800 \<and> length (Fields text) = 1700 \<longrightarrow>
      (\<exists>c1 c2 c3. splitIntoChunks text w = Some (Inr [c1, c2, c3]) \<and>
         length (Fields c1) = 800 \<and> length (Fields c2) = 800 \<and> length (Fields c3) = 100)"
  proof (intro impI)
    assume a: "w = 800 \<and> length (Fields text) = 1700"
    then have w: "nat w = 800" by simp
    let ?ws = "windows 800 (Fields text)"
    let ?cs = "map (\<lambda>ws. Join ws '' '') ?ws"
    have ml: "map length ?ws = [800, 800, 100]" using a by (simp add: windows_1700)
    then have "length ?ws = 3" by (metis length_map length_Cons list.size(3) numeral_3_eq_3)
    then obtain a1 a2 a3 where ws: "?ws = [a1, a2, a3]"
      by (auto simp: numeral_3_eq_3 length_Suc_conv)
    have fl: "map Fields ?cs = ?ws" using Fields_chunks [of 800 "text"] by simp
    have "map length (map Fields ?cs) = [800, 800, 100]" using fl ml by simp
    then have "length (Fields (Join a1 '' '')) = 800 \<and> length (Fields (Join a2 '' '')) = 800 \<and>
        length (Fields (Join a3 '' '')) = 100"
      using ws by simp
    moreover have "splitIntoChunks text w = Some (Inr [Join a1 '' '', Join a2 '' '', Join a3 '' ''])"
      using eq w ws by simp
    ultimately show "\<exists>c1 c2 c3. splitIntoChunks text w = Some (Inr [c1, c2, c3]) \<and>
         length (Fields c1) = 800 \<and> length (Fields c2) = 800 \<and> length (Fields c3) = 100"
      by blast
  qed
  from eq c ex bd em sc show ?thesis by blast
qed

theorem splitIntoChunks_windows_witness:
  "splitIntoChunks ''a b c d e'' 2 = Some (Inr [''a b'', ''c d'', ''e''])
   \<and> TrimSpace ''  '' = [] \<and> splitIntoChunks ''  '' 2 = Some (Inr [])
   \<and> length (Fields (Join (replicate 1700 ''a'') '' '')) = 1700
   \<and> (\<exists>c1 c2 c3. splitIntoChunks (Join (replicate 1700 ''a'') '' '') 800 = Some (Inr [c1, c2, c3]) \<and>
         length (Fields c1) = 800 \<and> length (Fields c2) = 800 \<and> length (Fields c3) = 100)"
proof -
  have 1: "splitIntoChunks ''a b c d e'' 2 = Some (Inr [''a b'', ''c d'', ''e''])"
    using splitIntoChunks_windows [of 2 "''a b c d e''"] by (simp add: Fields_example windows_example)
  have "(0::int) < 2" by simp
  from splitIntoChunks_windows [OF this, of "''  ''"] TrimSpace_blank
  have 2: "splitIntoChunks ''  '' 2 = Some (Inr [])" by blast
  have 3: "length (Fields (Join (replicate 1700 ''a'') '' '')) = 1700"
    by (simp add: Fields_many)
  have 4: "\<exists>c1 c2 c3. splitIntoChunks (Join (replicate 1700 ''a'') '' '') 800 = Some (Inr [c1, c2, c3]) \<and>
         length (Fields c1) = 800 \<and> length (Fields c2) = 800 \<and> length (Fields c3) = 100"
  proof -
    have "(0::int) < 800" by simp
    from splitIntoChunks_windows [OF this, of "Join (replicate 1700 ''a'') '' ''"] 3
    show ?thesis by blast
  qed
  from 1 2 3 4 TrimSpace_blank show ?thesis by blast
qed




section \<open>Properties of the cosine\<close>

lemma cosineLoop_sums:
  "length a = length b \<Longrightarrow>
   cosineLoop a b (d, x, y) = Inr (d + dotProduct a b, x + sumSquares a, y + sumSquares b)"
proof (induction a b "(d, x, y)" arbitrary: d x y rule: cosineLoop.induct)
  case (1 b acc)
  then show ?case by (simp add: dotProduct_def sumSquares_def)
next
  case (2 av a acc)
  then show ?case by simp
next
  case (3 av a bv b dot na nb)
  then show ?case by (simp add: dotProduct_def sumSquares_def algebra_simps)
qed

lemma sumSquares_nonneg: "0 \<le> sumSquares a"
  by (induction a) (simp_all add: sumSquares_def)

lemma norm2_zero_iff: "norm2 a = 0 \<longleftrightarrow> sumSquares a = 0"
  by (simp add: norm2_def)

lemma sumSquares_zeros: "sumSquares (replicate n 0) = 0"
  by (induction n) (simp_all add: sumSquares_def)

lemma dotProduct_self: "dotProduct a a = sumSquares a"
  by (induction a) (simp_all add: dotProduct_def sumSquares_def)

lemma cosine_formula:
  "length a = length b \<Longrightarrow>
   cosine a b = Inr (if norm2 a = 0 \<or> norm2 b = 0 then 0 else dotProduct a b / (norm2 a * norm2 b))"
  by (simp add: cosine_def cosineLoop_sums norm2_zero_iff) (simp add: norm2_def)

lemma cosine_eq: "length a = length b \<Longrightarrow> cosine a b = Inr (cosineSimilarity a b)"
  by (simp add: cosine_formula cosineSimilarity_def)

lemma cosine_self: "norm2 a \<noteq> 0 \<Longrightarrow> cosine a a = Inr 1"
proof -
  assume nz: "norm2 a \<noteq> 0"
  then have "sumSquares a \<noteq> 0" by (simp add: norm2_zero_iff)
  moreover have "norm2 a * norm2 a = sumSquares a"
    using sumSquares_nonneg [of a] by (simp add: norm2_def)
  ultimately show ?thesis using nz by (simp add: cosine_formula dotProduct_self)
qed

text \<open>
  C7. For vectors of equal length, cosine returns \<open>dot(a,b) / (||a|| * ||b||)\<close>, and 0
  when the norm of either is 0; so the cosine of a vector of non-zero norm with itself
  is 1, and the cosine of any vector with the all-zero vector, on either side, is 0.
  The float64 arithmetic of the program is exact arithmetic on the reals here.
\<close>

theorem cosine_similarity:
  assumes "length a = length b"
  shows "cosine a b =
           Inr (if norm2 a = 0 \<or> norm2 b = 0 then 0 else dotProduct a b / (norm2 a * norm2 b))
    \<and> (norm2 a \<noteq> 0 \<longrightarrow> cosine a a = Inr 1)
    \<and> cosine a (replicate (length a) 0) = Inr 0
    \<and> cosine (replicate (length a) 0) a = Inr 0"
proof -
  have z: "norm2 (replicate (length a) 0) = 0" by (simp add: norm2_zero_iff sumSquares_zeros)
  have "cosine a (replicate (length a) 0) = Inr 0" using z by (simp add: cosine_formula)
  moreover have "cosine (replicate (length a) 0) a = Inr 0" using z by (simp add: cosine_formula)
  ultimately show ?thesis using assms cosine_formula [OF assms] cosine_self by simp
qed

theorem cosine_similarity_witness:
  "length [3, 4 :: real] = length [4, 3 :: real]
   \<and> cosine [3, 4] [4, 3] = Inr (24 / 25)
   \<and> norm2 [3, 4] \<noteq> 0 \<and> cosine [3, 4] [3, 4] = Inr 1
   \<and> cosine [3, 4] [0, 0] = Inr 0 \<and> cosine [0, 0] [3, 4] = Inr 0"
proof -
  have s: "sqrt 25 = 5" by simp
  have n1: "norm2 [3, 4] = 5" by (simp add: norm2_def sumSquares_def)
  have n2: "norm2 [4, 3] = 5" by (simp add: norm2_def sumSquares_def)
  have d: "dotProduct [3, 4] [4, 3] = 24" by (simp add: dotProduct_def)
  have l: "length [3, 4 :: real] = length [4, 3 :: real]" by simp
  from cosine_similarity [OF l] n1 n2 d show ?thesis by (simp add: numeral_2_eq_2)
qed

section \<open>Properties of Answer and of the ingestion loops\<close>

text \<open>
  C8. A query that TrimSpace empties makes Answer return the validation error with the
  state as it was: no call was made. When the embedding call fails, Answer returns
  that error, and the only call made is the embedding call: the store was not searched.
\<close>

theorem Answer_fails_fast:
  "(TrimSpace query = [] \<longrightarrow>
      Answer e query kialiContext st = (Inr ([], [], models e, Some EmptyQuery), st))
   \<and> (TrimSpace query \<noteq> [] \<and> embedProvider e query = Inl err \<longrightarrow>
      Answer e query kialiContext st =
        (Inr ([], [], models e, Some err), st\<lparr>calls := calls st @ [CallEmbed query]\<rparr>))"
  by (simp add: Answer_def logEvent_def)

lemma TrimSpace_fail: "TrimSpace ''fail'' = ''fail''"
  by code_simp

theorem Answer_fails_fast_witness:
  "TrimSpace ''  '' = []
   \<and> Answer demoEngine ''  '' None emptyState =
       (Inr ([], [], models demoEngine, Some EmptyQuery), emptyState)
   \<and> TrimSpace ''fail'' \<noteq> [] \<and> embedProvider demoEngine ''fail'' = Inl (Upstream ''embed status 500'')
   \<and> Answer demoEngine ''fail'' None emptyState =
       (Inr ([], [], models demoEngine, Some (Upstream ''embed status 500'')),
        emptyState\<lparr>calls := [CallEmbed ''fail'']\<rparr>)"
proof -
  have e: "embedProvider demoEngine ''fail'' = Inl (Upstream ''embed status 500'')"
    by (simp add: demoEngine_def)
  have c: "calls emptyState = []" by (simp add: emptyState_def)
  from Answer_fails_fast [of "''  ''" demoEngine None emptyState "Upstream ''embed status 500''"]
    Answer_fails_fast [of "''fail''" demoEngine None emptyState "Upstream ''embed status 500''"]
    TrimSpace_blank TrimSpace_fail e c
  show ?thesis by simp
qed





section \<open>Properties of Deduplicate\<close>

lemma consistent_deleteEmbeddings: "consistent st \<Longrightarrow> consistent (deleteEmbeddings i st)"
  by (auto simp: consistent_def deleteEmbeddings_def)

lemma consistent_logEvent [simp]: "consistent (logEvent ev st) = consistent st"
  by (simp add: consistent_def logEvent_def)

lemma consistent_deleteDocument:
  "consistent st \<Longrightarrow>
   consistent (snd (deleteDocument i (logEvent ev (deleteEmbeddings i st))))"
  by (auto simp: consistent_def deleteDocument_def deleteEmbeddings_def logEvent_def)

lemma length_filter_split:
  "length (filter (\<lambda>d. f d = i) xs) + length (filter (\<lambda>d. f d \<in> S) (filter (\<lambda>d. f d \<noteq> i) xs)) =
   length (filter (\<lambda>d. f d \<in> insert i S) xs)"
  by (induction xs) auto

lemma dedupLoop_ok:
  assumes "\<forall>s. driverError e s = None"
  shows "consistent st \<Longrightarrow>
    (case dedupLoop e ids removed st of ((r, err), st', trace) \<Rightarrow>
       err = None
       \<and> r = removed + int (length (filter (\<lambda>d. docId d \<in> set ids) (documents st)))
       \<and> documents st' = filter (\<lambda>d. docId d \<notin> set ids) (documents st)
       \<and> embeddings st' = filter (\<lambda>em. document_id em \<notin> set ids) (embeddings st)
       \<and> lastId st' = lastId st
       \<and> calls st' = calls st @
             concat (map (\<lambda>i. [Statement (DeleteEmbeddings i), Statement (DeleteDocument i)]) ids)
       \<and> (\<forall>s \<in> set trace. consistent s)
       \<and> consistent st'
       \<and> length trace = 2 * length ids
       \<and> (ids \<noteq> [] \<longrightarrow> documents (last trace) = documents st' \<and> embeddings (last trace) = embeddings st'))"
proof (induction ids arbitrary: removed st)
  case Nil
  then show ?case by simp
next
  case (Cons i ids)
  let ?st1 = "deleteEmbeddings i (logEvent (Statement (DeleteEmbeddings i)) st)"
  let ?st2 = "logEvent (Statement (DeleteDocument i)) ?st1"
  let ?af = "fst (deleteDocument i ?st2)"
  let ?st3 = "snd (deleteDocument i ?st2)"
  have c1: "consistent ?st1" using Cons.prems by (simp add: consistent_deleteEmbeddings)
  have c3: "consistent ?st3"
    using consistent_deleteDocument [of "logEvent (Statement (DeleteEmbeddings i)) st" i] Cons.prems
    by simp
  obtain r err st' trace where rec: "dedupLoop e ids (removed + ?af) ?st3 = ((r, err), st', trace)"
    by (metis surj_pair)
  have ih: "err = None
       \<and> r = removed + ?af + int (length (filter (\<lambda>d. docId d \<in> set ids) (documents ?st3)))
       \<and> documents st' = filter (\<lambda>d. docId d \<notin> set ids) (documents ?st3)
       \<and> embeddings st' = filter (\<lambda>em. document_id em \<notin> set ids) (embeddings ?st3)
       \<and> lastId st' = lastId ?st3
       \<and> calls st' = calls ?st3 @
             concat (map (\<lambda>i. [Statement (DeleteEmbeddings i), Statement (DeleteDocument i)]) ids)
       \<and> (\<forall>s \<in> set trace. consistent s)
       \<and> consistent st'
       \<and> length trace = 2 * length ids
       \<and> (ids \<noteq> [] \<longrightarrow> documents (last trace) = documents st' \<and> embeddings (last trace) = embeddings st')"
    using Cons.IH [OF c3, of "removed + ?af"] rec by simp
  have step: "dedupLoop e (i # ids) removed st = ((r, err), st', ?st1 # ?st3 # trace)"
    using assms rec by (auto simp: Let_def split: prod.splits)
  have d3: "documents ?st3 = filter (\<lambda>d. docId d \<noteq> i) (documents st)"
    by (simp add: deleteDocument_def deleteEmbeddings_def logEvent_def)
  have e3: "embeddings ?st3 = filter (\<lambda>em. document_id em \<noteq> i) (embeddings st)"
    by (simp add: deleteDocument_def deleteEmbeddings_def logEvent_def)
  have l3: "lastId ?st3 = lastId st"
    by (simp add: deleteDocument_def deleteEmbeddings_def logEvent_def)
  have k3: "calls ?st3 = calls st @ [Statement (DeleteEmbeddings i), Statement (DeleteDocument i)]"
    by (simp add: deleteDocument_def deleteEmbeddings_def logEvent_def)
  have af: "?af = int (length (filter (\<lambda>d. docId d = i) (documents st)))"
    by (simp add: deleteDocument_def deleteEmbeddings_def logEvent_def)
  have cnt: "r = removed + int (length (filter (\<lambda>d. docId d \<in> set (i # ids)) (documents st)))"
    using ih af d3 length_filter_split [of docId i "documents st" "set ids"] by simp
  have docs: "documents st' = filter (\<lambda>d. docId d \<notin> set (i # ids)) (documents st)"
    using ih d3 by (auto intro: filter_cong)
  have embs: "embeddings st' = filter (\<lambda>em. document_id em \<notin> set (i # ids)) (embeddings st)"
    using ih e3 by (auto intro: filter_cong)
  have lst: "documents (last (?st1 # ?st3 # trace)) = documents st' \<and>
             embeddings (last (?st1 # ?st3 # trace)) = embeddings st'"
  proof (cases "ids = []")
    case True
    then have "trace = []" using ih by simp
    moreover have "st' = ?st3" using True rec by simp
    ultimately show ?thesis by simp
  next
    case False
    then have "trace \<noteq> []" using ih by auto
    then show ?thesis using ih False by simp
  qed
  show ?case
    unfolding step using ih cnt docs embs l3 k3 c1 c3 lst by simp
qed


lemma singleton_list: "distinct xs \<Longrightarrow> set xs = {m} \<Longrightarrow> xs = [m]"
proof -
  assume d: "distinct xs" and s: "set xs = {m}"
  then have "length xs = 1" using distinct_card [of xs] by simp
  then obtain y where "xs = [y]" by (cases xs) auto
  with s show ?thesis by simp
qed

lemma lowest_row:
  assumes "u \<in> docUrl ` set docs"
  shows "\<exists>m \<in> set docs. docUrl m = u \<and> (\<forall>d \<in> set docs. docUrl d = u \<longrightarrow> docId m \<le> docId d)"
proof -
  let ?S = "docId ` {d \<in> set docs. docUrl d = u}"
  have fin: "finite ?S" by simp
  have ne: "?S \<noteq> {}" using assms by auto
  have "Min ?S \<in> ?S" using fin ne by (rule Min_in)
  then obtain m where m: "m \<in> set docs" "docUrl m = u" "docId m = Min ?S" by auto
  have "\<forall>d \<in> set docs. docUrl d = u \<longrightarrow> docId m \<le> docId d"
  proof (intro ballI impI)
    fix d assume "d \<in> set docs" "docUrl d = u"
    then have "docId d \<in> ?S" by auto
    then show "docId m \<le> docId d" using m(3) fin by simp
  qed
  with m show ?thesis by blast
qed

lemma survivors:
  assumes dis: "distinct (map docId docs)" and u: "u \<in> docUrl ` set docs"
  shows "\<exists>m. filter (\<lambda>d. docUrl d = u)
              (filter (\<lambda>d. \<not> (\<exists>d2 \<in> set docs. docUrl d2 = docUrl d \<and> docId d2 < docId d)) docs) = [m]
            \<and> m \<in> set docs \<and> (\<forall>d \<in> set docs. docUrl d = u \<longrightarrow> docId m \<le> docId d)"
proof -
  let ?dup = "\<lambda>d. \<exists>d2 \<in> set docs. docUrl d2 = docUrl d \<and> docId d2 < docId d"
  let ?xs = "filter (\<lambda>d. docUrl d = u) (filter (\<lambda>d. \<not> ?dup d) docs)"
  from lowest_row [OF u] obtain m where m: "m \<in> set docs" "docUrl m = u"
      "\<forall>d \<in> set docs. docUrl d = u \<longrightarrow> docId m \<le> docId d" by blast
  have inj: "inj_on docId (set docs)" using dis by (simp add: distinct_map)
  have "distinct docs" using dis by (simp add: distinct_map)
  then have dx: "distinct ?xs" by simp
  have "set ?xs = {m}"
  proof (intro equalityI subsetI)
    fix d assume "d \<in> set ?xs"
    then have d: "d \<in> set docs" "docUrl d = u" "\<not> ?dup d" by auto
    have "docId m \<le> docId d" using m(3) d by blast
    moreover have "\<not> docId m < docId d" using d m by auto
    ultimately have "docId m = docId d" by simp
    then have "d = m" using inj d(1) m(1) by (auto dest: inj_onD)
    then show "d \<in> {m}" by simp
  next
    fix d assume "d \<in> {m}"
    then have "d = m" by simp
    moreover have "\<not> ?dup m" using m by fastforce
    ultimately show "d \<in> set ?xs" using m by simp
  qed
  with dx have "?xs = [m]" by (rule singleton_list)
  with m show ?thesis by blast
qed

lemma duplicateIds_member:
  assumes "distinct (map docId (documents st))" and "d \<in> set (documents st)"
  shows "docId d \<in> set (duplicateIds st) \<longleftrightarrow>
         (\<exists>d2 \<in> set (documents st). docUrl d2 = docUrl d \<and> docId d2 < docId d)"
proof -
  have inj: "inj_on docId (set (documents st))" using assms(1) by (simp add: distinct_map)
  show ?thesis
  proof
    assume "docId d \<in> set (duplicateIds st)"
    then have "docId d \<in> docId ` {d' \<in> set (documents st).
        \<exists>d2 \<in> set (documents st). docUrl d2 = docUrl d' \<and> docId d2 < docId d'}"
      by (simp add: duplicateIds_def)
    then obtain d' where d': "d' \<in> set (documents st)" "docId d' = docId d"
        "\<exists>d2 \<in> set (documents st). docUrl d2 = docUrl d' \<and> docId d2 < docId d'"
      by (elim imageE) auto
    then have "d' = d" using inj assms(2) by (auto dest: inj_onD)
    with d' show "\<exists>d2 \<in> set (documents st). docUrl d2 = docUrl d \<and> docId d2 < docId d" by simp
  next
    assume "\<exists>d2 \<in> set (documents st). docUrl d2 = docUrl d \<and> docId d2 < docId d"
    then show "docId d \<in> set (duplicateIds st)" using assms(2) by (auto simp: duplicateIds_def)
  qed
qed

text \<open>
  C3. When no statement fails and the identities of the document rows are distinct,
  Deduplicate leaves for every URL of the table exactly one row, the one with the
  lowest identity; it returns the number of document rows it removed; the embeddings
  that remain are those of the documents that remain; each identity's embeddings are
  deleted before its row, and every state between two statements keeps every
  embedding attached to a document row, as the state before did.
\<close>

theorem Deduplicate_keeps_lowest:
  assumes ok: "\<forall>s. driverError e s = None"
    and ids: "distinct (map docId (documents st))"
    and con: "consistent st"
  shows "case Deduplicate e st of ((removed, err), st', trace) \<Rightarrow>
     err = None
     \<and> (\<forall>u \<in> docUrl ` set (documents st).
           \<exists>m. filter (\<lambda>d. docUrl d = u) (documents st') = [m] \<and> m \<in> set (documents st) \<and>
               (\<forall>d \<in> set (documents st). docUrl d = u \<longrightarrow> docId m \<le> docId d))
     \<and> removed = int (length (documents st)) - int (length (documents st'))
     \<and> embeddings st' =
         filter (\<lambda>em. document_id em \<in> docId ` set (documents st')) (embeddings st)
     \<and> calls st' = calls st @ [Statement SelectDuplicateIds] @
         concat (map (\<lambda>i. [Statement (DeleteEmbeddings i), Statement (DeleteDocument i)])
                   (duplicateIds st))
     \<and> (\<forall>s \<in> set trace. consistent s)
     \<and> (trace \<noteq> [] \<longrightarrow> documents (last trace) = documents st' \<and>
                          embeddings (last trace) = embeddings st')"
proof -
  let ?st0 = "logEvent (Statement SelectDuplicateIds) st"
  let ?D = "duplicateIds st"
  let ?dup = "\<lambda>d. \<exists>d2 \<in> set (documents st). docUrl d2 = docUrl d \<and> docId d2 < docId d"
  have D0: "duplicateIds ?st0 = ?D" by (simp add: duplicateIds_def logEvent_def)
  have c0: "consistent ?st0" using con by simp
  obtain removed err st' trace where run: "dedupLoop e ?D 0 ?st0 = ((removed, err), st', trace)"
    by (metis surj_pair)
  have ded: "Deduplicate e st = ((removed, err), st', trace)"
    using ok run D0 by (simp add: Deduplicate_def Let_def)
  have facts: "err = None
       \<and> removed = 0 + int (length (filter (\<lambda>d. docId d \<in> set ?D) (documents ?st0)))
       \<and> documents st' = filter (\<lambda>d. docId d \<notin> set ?D) (documents ?st0)
       \<and> embeddings st' = filter (\<lambda>em. document_id em \<notin> set ?D) (embeddings ?st0)
       \<and> lastId st' = lastId ?st0
       \<and> calls st' = calls ?st0 @
             concat (map (\<lambda>i. [Statement (DeleteEmbeddings i), Statement (DeleteDocument i)]) ?D)
       \<and> (\<forall>s \<in> set trace. consistent s)
       \<and> consistent st'
       \<and> length trace = 2 * length ?D
       \<and> (?D \<noteq> [] \<longrightarrow> documents (last trace) = documents st' \<and> embeddings (last trace) = embeddings st')"
    using dedupLoop_ok [OF ok c0, where ids = ?D and removed = 0] run by simp
  have docs: "documents st' = filter (\<lambda>d. \<not> ?dup d) (documents st)"
  proof -
    have "documents st' = filter (\<lambda>d. docId d \<notin> set ?D) (documents st)"
      using facts by (simp add: logEvent_def)
    also have "\<dots> = filter (\<lambda>d. \<not> ?dup d) (documents st)"
      using duplicateIds_member [OF ids] by (intro filter_cong) auto
    finally show ?thesis .
  qed
  have one: "\<forall>u \<in> docUrl ` set (documents st).
           \<exists>m. filter (\<lambda>d. docUrl d = u) (documents st') = [m] \<and> m \<in> set (documents st) \<and>
               (\<forall>d \<in> set (documents st). docUrl d = u \<longrightarrow> docId m \<le> docId d)"
    unfolding docs using survivors [OF ids] by blast
  have cnt: "removed = int (length (documents st)) - int (length (documents st'))"
  proof -
    have "length (filter (\<lambda>d. docId d \<in> set ?D) (documents st)) +
          length (filter (\<lambda>d. \<not> docId d \<in> set ?D) (documents st)) = length (documents st)"
      by (rule sum_length_filter_compl)
    moreover have "documents st' = filter (\<lambda>d. \<not> docId d \<in> set ?D) (documents st)"
      using facts by (simp add: logEvent_def)
    moreover have "removed = int (length (filter (\<lambda>d. docId d \<in> set ?D) (documents st)))"
      using facts by (simp add: logEvent_def)
    ultimately show ?thesis by simp
  qed
  have inj: "inj_on docId (set (documents st))" using ids by (simp add: distinct_map)
  have embs: "embeddings st' =
         filter (\<lambda>em. document_id em \<in> docId ` set (documents st')) (embeddings st)"
  proof -
    have "embeddings st' = filter (\<lambda>em. document_id em \<notin> set ?D) (embeddings st)"
      using facts by (simp add: logEvent_def)
    also have "\<dots> = filter (\<lambda>em. document_id em \<in> docId ` set (documents st')) (embeddings st)"
    proof (intro filter_cong refl)
      fix em assume "em \<in> set (embeddings st)"
      then obtain d where d: "d \<in> set (documents st)" "document_id em = docId d"
        using con by (auto simp: consistent_def)
      have "document_id em \<in> docId ` set (documents st') \<longleftrightarrow> \<not> ?dup d"
      proof
        assume "document_id em \<in> docId ` set (documents st')"
        then obtain d' where d': "d' \<in> set (documents st)" "\<not> ?dup d'" "docId d' = docId d"
          using d(2) docs by auto
        then have "d' = d" using inj d(1) by (auto dest: inj_onD)
        with d' show "\<not> ?dup d" by simp
      next
        assume "\<not> ?dup d"
        then have "d \<in> set (documents st')" using d(1) docs by simp
        then show "document_id em \<in> docId ` set (documents st')" using d(2) by auto
      qed
      then show "(document_id em \<notin> set ?D) = (document_id em \<in> docId ` set (documents st'))"
        using duplicateIds_member [OF ids d(1)] d(2) by simp
    qed
    finally show ?thesis .
  qed
  have cl: "calls st' = calls st @ [Statement SelectDuplicateIds] @
         concat (map (\<lambda>i. [Statement (DeleteEmbeddings i), Statement (DeleteDocument i)]) ?D)"
    using facts by (simp add: logEvent_def)
  have lst: "trace \<noteq> [] \<longrightarrow> documents (last trace) = documents st' \<and>
                          embeddings (last trace) = embeddings st'"
    using facts by auto
  show ?thesis unfolding ded using facts one cnt embs cl lst by simp
qed


lemma Deduplicate_example:
  "Deduplicate demoEngine dupState =
     ((1, None),
      \<lparr>documents = [row 1 ''u'', row 2 ''v''], embeddings = [chunkRow 1 [1], chunkRow 2 [1]],
       lastId = 3,
       calls = [Statement SelectDuplicateIds, Statement (DeleteEmbeddings 3),
                Statement (DeleteDocument 3)]\<rparr>,
      [\<lparr>documents = [row 1 ''u'', row 2 ''v'', row 3 ''u''],
        embeddings = [chunkRow 1 [1], chunkRow 2 [1]], lastId = 3,
        calls = [Statement SelectDuplicateIds, Statement (DeleteEmbeddings 3)]\<rparr>,
       \<lparr>documents = [row 1 ''u'', row 2 ''v''], embeddings = [chunkRow 1 [1], chunkRow 2 [1]],
        lastId = 3,
        calls = [Statement SelectDuplicateIds, Statement (DeleteEmbeddings 3),
                 Statement (DeleteDocument 3)]\<rparr>])"
  by (simp add: Deduplicate_def dupState_def demoEngine_def duplicateIds_def logEvent_def
        deleteEmbeddings_def deleteDocument_def row_def chunkRow_def Let_def)

theorem Deduplicate_keeps_lowest_witness:
  "(\<forall>s. driverError demoEngine s = None)
   \<and> distinct (map docId (documents dupState)) \<and> consistent dupState
   \<and> length (filter (\<lambda>d. docUrl d = ''u'') (documents dupState)) = 2
   \<and> (case Deduplicate demoEngine dupState of ((removed, err), st', trace) \<Rightarrow>
        removed = 1 \<and> err = None
        \<and> documents st' = [row 1 ''u'', row 2 ''v'']
        \<and> embeddings st' = [chunkRow 1 [1], chunkRow 2 [1]]
        \<and> (\<forall>s \<in> set trace. consistent s))"
proof -
  have ok: "\<forall>s. driverError demoEngine s = None" by (simp add: demoEngine_def)
  have ids: "distinct (map docId (documents dupState))" by (simp add: dupState_def row_def)
  have con: "consistent dupState" by (simp add: consistent_def dupState_def row_def chunkRow_def)
  have two: "length (filter (\<lambda>d. docUrl d = ''u'') (documents dupState)) = 2"
    by (simp add: dupState_def row_def)
  have "\<forall>s \<in> set (snd (snd (Deduplicate demoEngine dupState))). consistent s"
    using Deduplicate_keeps_lowest [OF ok ids con] by (auto split: prod.splits)
  with ok ids con two show ?thesis by (simp add: Deduplicate_example)
qed

section \<open>Properties of the site crawler\<close>

lemma fetched_append [simp]: "fetched (xs @ ys) = fetched xs @ fetched ys"
  by (simp add: fetched_def)



lemma fetched_insertEmbedding [simp]:
  "calls (insertEmbedding i pos v snip st) = calls st"
  by (simp add: insertEmbedding_def)







lemma crawl_foreign:
  "IngestKialiDocs demoEngine ''https://example.com/kiali.io/docs/'' emptyState =
    Some (Inr (0, 0, None), \<lparr>documents = [], embeddings = [], lastId = 0,
      calls = [GetDoc ''https://example.com/kiali.io/docs/'']\<rparr>)"
  by code_simp

lemma parse_foreign:
  "urlParse ''https://example.com/kiali.io/docs/'' =
     Inr \<lparr>Scheme = ''https'', Opaque = [], User = None, Host = ''example.com'',
        Path = ''/kiali.io/docs/'', ForceQuery = False, RawQuery = [],
        Fragment = []\<rparr>"
  by code_simp








text \<open>
  C2 fails on the seed of the crawl. The loop tests whether the URL contains the text
  kiali.io, not whether its host does: a base URL on another host with kiali.io in its
  path is fetched.
\<close>

theorem crawl_fetches_foreign_host:
  "map_sum id Host (urlParse ''https://example.com/kiali.io/docs/'') = Inr ''example.com''
   \<and> \<not> Contains ''example.com'' ''kiali.io''
   \<and> \<not> shouldCrawl ''https://example.com/kiali.io/docs/''
   \<and> map_option (fetched \<circ> calls \<circ> snd)
        (IngestKialiDocs demoEngine ''https://example.com/kiali.io/docs/'' emptyState) =
      Some [''https://example.com/kiali.io/docs/'']"
proof -
  have 1: "map_sum id Host (urlParse ''https://example.com/kiali.io/docs/'') = Inr ''example.com''"
    by (simp add: parse_foreign)
  have 2: "\<not> Contains ''example.com'' ''kiali.io''" by code_simp
  have 3: "\<not> shouldCrawl ''https://example.com/kiali.io/docs/''"
    using 2 by (simp add: shouldCrawl_def parse_foreign)
  have 4: "map_option (fetched \<circ> calls \<circ> snd)
        (IngestKialiDocs demoEngine ''https://example.com/kiali.io/docs/'' emptyState) =
      Some [''https://example.com/kiali.io/docs/'']"
    by (simp add: crawl_foreign fetched_def)
  from 1 2 3 4 show ?thesis by blast
qed

theorem crawl_fetches_foreign_host_witness:
  "\<exists>r st'. IngestKialiDocs demoEngine ''https://example.com/kiali.io/docs/'' emptyState = Some (r, st')
     \<and> fetched (calls st') = [''https://example.com/kiali.io/docs/'']"
proof -
  have "map_option (fetched \<circ> calls \<circ> snd)
        (IngestKialiDocs demoEngine ''https://example.com/kiali.io/docs/'' emptyState) =
      Some [''https://example.com/kiali.io/docs/'']"
    using crawl_fetches_foreign_host by (rule conjunct2 [THEN conjunct2, THEN conjunct2])
  then show ?thesis by (auto simp: map_option_eq_Some)
qed

section \<open>Properties of the linear scan\<close>

subsection \<open>Digits\<close>

lemma byte_digit: "d < 10 \<Longrightarrow> byte (digit d) = 48 + d"
  by (simp add: byte_def digit_def)

lemma isDigit_digit: "d < 10 \<Longrightarrow> isDigit (digit d)"
  by (simp add: isDigit_def byte_digit)

lemma digitValue_digit: "d < 10 \<Longrightarrow> digitValue (digit d) = d"
  by (simp add: digitValue_def byte_digit)

lemma digitsValue_snoc: "digitsValue (ds @ [c]) = digitsValue ds * 10 + digitValue c"
  by (simp add: digitsValue_def)

lemma decimal_digits: "c \<in> set (decimal n) \<Longrightarrow> isDigit c"
proof (induction n rule: decimal.induct)
  case (1 n)
  show ?case
  proof (cases "n < 10")
    case True
    with 1(2) show ?thesis by (simp add: decimal.simps [of n] isDigit_digit)
  next
    case False
    with 1 show ?thesis by (auto simp: decimal.simps [of n] isDigit_digit)
  qed
qed

lemma decimal_not_Nil: "decimal n \<noteq> []"
  by (subst decimal.simps) simp

lemma digitsValue_decimal: "digitsValue (decimal n) = n"
proof (induction n rule: decimal.induct)
  case (1 n)
  show ?case
  proof (cases "n < 10")
    case True
    then show ?thesis by (simp add: decimal.simps [of n] digitsValue_def digitValue_digit)
  next
    case False
    with 1 show ?thesis
      by (simp add: decimal.simps [of n] digitsValue_snoc digitValue_digit)
  qed
qed

lemma isDigit_bytes: "isDigit c \<Longrightarrow> c \<noteq> CHR '' '' \<and> byte c \<noteq> 9 \<and> c \<noteq> CHR ''-'' \<and> c \<noteq> CHR ''+''
    \<and> c \<noteq> CHR ''.'' \<and> c \<noteq> CHR ''('' \<and> c \<noteq> CHR '')''"
  by (auto simp: isDigit_def byte_def)

lemma not_digit_point: "\<not> isDigit (CHR ''.'')" "\<not> isDigit (CHR '')'')"
  by (simp_all add: isDigit_def byte_def)

subsection \<open>Reading back what was printed\<close>

lemma three_digits:
  "digitsValue [digit (t div 100 mod 10), digit (t div 10 mod 10), digit (t mod 10)] = t mod 1000"
proof -
  have "digitsValue [digit (t div 100 mod 10), digit (t div 10 mod 10), digit (t mod 10)] =
      (t div 100 mod 10) * 100 + (t div 10 mod 10) * 10 + t mod 10"
    by (simp add: digitsValue_def digitValue_digit)
  also have "\<dots> = t mod 1000"
  proof -
    have a: "t mod (10 * 100) = 10 * (t div 10 mod 100) + t mod 10" by (rule mod_mult2_eq)
    have b: "t div 10 mod (10 * 10) = 10 * (t div 10 div 10 mod 10) + t div 10 mod 10"
      by (rule mod_mult2_eq)
    have c: "t div 10 div 10 = t div (10 * 10)" by (rule div_mult2_eq [symmetric])
    from a b c show ?thesis by simp
  qed
  finally show ?thesis .
qed

lemma scan_unsigned:
  assumes "\<forall>c \<in> set ip. isDigit c" and "ip \<noteq> []" and "\<forall>c \<in> set fp. isDigit c" and "fp \<noteq> []"
  shows "scanFloat (ip @ CHR ''.'' # fp @ [CHR '')'']) =
           real (digitsValue ip) + real (digitsValue fp) / 10 ^ length fp"
    and "scanFloat (CHR ''-'' # ip @ CHR ''.'' # fp @ [CHR '')'']) =
           - (real (digitsValue ip) + real (digitsValue fp) / 10 ^ length fp)"
proof -
  let ?str = "ip @ CHR ''.'' # fp @ [CHR '')'']"
  obtain c cs where ip: "ip = c # cs" using assms(2) by (cases ip) auto
  have c: "isDigit c" using assms(1) ip by simp
  have s0: "skipBlanks ?str = ?str"
    using ip isDigit_bytes [OF c] by (simp add: skipBlanks_def)
  have s0n: "skipBlanks (CHR ''-'' # ?str) = CHR ''-'' # ?str"
    by (simp add: skipBlanks_def byte_def)
  have sg: "takeSign ?str = (False, ?str)"
    using ip isDigit_bytes [OF c] by (simp add: takeSign_def)
  have sgn: "takeSign (CHR ''-'' # ?str) = (True, ?str)"
    by (simp add: takeSign_def)
  have tw: "takeWhile isDigit ?str = ip"
    using assms(1) by (simp add: not_digit_point)
  have dw: "dropWhile isDigit ?str = CHR ''.'' # fp @ [CHR '')'']"
    using assms(1) by (simp add: not_digit_point)
  have fr: "scanFraction (CHR ''.'' # fp @ [CHR '')'']) = (fp, [CHR '')''])"
    using assms(3) by (simp add: scanFraction_def not_digit_point)
  have ex: "scanExponent [CHR '')''] = (False, False, [])"
    by (simp add: scanExponent_def)
  show "scanFloat ?str = real (digitsValue ip) + real (digitsValue fp) / 10 ^ length fp"
    using assms(2) by (simp add: scanFloat_def s0 sg tw dw fr ex)
  show "scanFloat (CHR ''-'' # ?str) = - (real (digitsValue ip) + real (digitsValue fp) / 10 ^ length fp)"
    using assms(2) by (simp add: scanFloat_def s0n sgn tw dw fr ex)
qed

lemma scanFloat_formatF3: "scanFloat (formatF3 x @ '')'') = score3 x"
proof -
  let ?t = "thousandths x"
  let ?ip = "decimal (?t div 1000)"
  let ?fp = "[digit (?t div 100 mod 10), digit (?t div 10 mod 10), digit (?t mod 10)]"
  have ip: "\<forall>c \<in> set ?ip. isDigit c" "?ip \<noteq> []"
    using decimal_digits decimal_not_Nil by auto
  have fp: "\<forall>c \<in> set ?fp. isDigit c" "?fp \<noteq> []" by (simp_all add: isDigit_digit)
  have v: "real (digitsValue ?ip) + real (digitsValue ?fp) / 10 ^ length ?fp = real ?t / 1000"
  proof -
    have "real (digitsValue ?ip) + real (digitsValue ?fp) / 10 ^ length ?fp =
        real (?t div 1000) + real (?t mod 1000) / 1000"
      by (simp only: digitsValue_decimal three_digits) simp
    also have "\<dots> = (real (?t div 1000) * 1000 + real (?t mod 1000)) / 1000"
      by (simp add: field_simps)
    also have "real (?t div 1000) * 1000 + real (?t mod 1000) = real (?t div 1000 * 1000 + ?t mod 1000)"
      by (simp only: of_nat_add of_nat_mult of_nat_numeral)
    also have "?t div 1000 * 1000 + ?t mod 1000 = ?t" by (rule div_mult_mod_eq)
    finally show ?thesis .
  qed
  show ?thesis
  proof (cases "x < 0")
    case True
    then have "formatF3 x @ '')'' = CHR ''-'' # ?ip @ CHR ''.'' # ?fp @ [CHR '')'']"
      by (simp add: formatF3_def Let_def)
    then show ?thesis using scan_unsigned(2) [OF ip fp] v True by (simp add: score3_def)
  next
    case False
    then have "formatF3 x @ '')'' = ?ip @ CHR ''.'' # ?fp @ [CHR '')'']"
      by (simp add: formatF3_def Let_def)
    then show ?thesis using scan_unsigned(1) [OF ip fp] v False by (simp add: score3_def)
  qed
qed

subsection \<open>The last score in a snippet\<close>

lemma filter_rev_upt_last:
  assumes "P l" and "l \<le> n" and "\<forall>i. l < i \<and> i \<le> n \<longrightarrow> \<not> P i"
  shows "\<exists>rest. filter P (rev [0 ..< Suc n]) = l # rest"
proof -
  have "[0 ..< l + (Suc n - l)] = [0 ..< l] @ [l ..< l + (Suc n - l)]"
    by (rule upt_add_eq_append) simp
  moreover have "l + (Suc n - l) = Suc n" using assms(2) by simp
  moreover have "[l ..< Suc n] = l # [Suc l ..< Suc n]"
    using assms(2) by (simp add: upt_conv_Cons)
  ultimately have "[0 ..< Suc n] = [0 ..< l] @ [l] @ [Suc l ..< Suc n]" by simp
  then have "rev [0 ..< Suc n] = rev [Suc l ..< Suc n] @ [l] @ rev [0 ..< l]" by simp
  moreover have "filter P (rev [Suc l ..< Suc n]) = []" using assms(3) by (auto simp: filter_empty_conv)
  ultimately show ?thesis using assms(1) by simp
qed

lemma LastIndex_suffix:
  assumes "CHR ''('' \<notin> set f"
  shows "LastIndex (s @ '' (sim='' @ f @ '')'') ''(sim='' = int (length s) + 1"
proof -
  let ?t = "s @ '' (sim='' @ f @ '')''"
  let ?P = "\<lambda>i. prefix ''(sim='' (drop i ?t)"
  have at: "?P (Suc (length s))" by simp
  have le: "Suc (length s) \<le> length ?t" by simp
  have after: "\<forall>i. Suc (length s) < i \<and> i \<le> length ?t \<longrightarrow> \<not> ?P i"
  proof (intro allI impI notI)
    fix i assume i: "Suc (length s) < i \<and> i \<le> length ?t" and p: "?P i"
    let ?u = "''sim='' @ f @ '')''"
    define D where "D = drop i ?t"
    have "?t = (s @ '' ('') @ ?u" by simp
    then have "drop i ?t = drop i (s @ '' ('') @ drop (i - length (s @ '' ('')) ?u"
      by (simp only: drop_append)
    moreover have "drop i (s @ '' ('') = []" using i by simp arith
    ultimately have eq: "D = drop (i - length (s @ '' ('')) ?u" by (simp only: D_def append_Nil)
    have "CHR ''('' \<notin> set ?u" using assms by simp
    then have nd: "CHR ''('' \<notin> set (drop (i - length (s @ '' ('')) ?u)"
      by (meson in_set_dropD)
    have np: "CHR ''('' \<notin> set D" unfolding eq by (rule nd)
    from p have "prefix ''(sim='' D" by (simp only: D_def)
    then obtain zs where "D = ''(sim='' @ zs" by (auto simp: prefix_def)
    then have "CHR ''('' \<in> set D" by simp
    with np show False by simp
  qed
  obtain rest where "filter ?P (rev [0 ..< Suc (length ?t)]) = Suc (length s) # rest"
    using filter_rev_upt_last [of ?P, OF at le after] by blast
  then show ?thesis by (simp add: LastIndex_def)
qed

lemma paren_not_digit: "\<not> isDigit (CHR ''('')"
  by (simp add: isDigit_def byte_def)

lemma formatF3_no_paren: "CHR ''('' \<notin> set (formatF3 x)"
proof -
  have d: "CHR ''('' \<noteq> digit d" if "d < 10" for d
    using isDigit_digit [OF that] paren_not_digit by auto
  have n: "CHR ''('' \<notin> set (decimal n)" for n
  proof
    assume "CHR ''('' \<in> set (decimal n)"
    then have "isDigit (CHR ''('')" by (rule decimal_digits)
    then show False by (simp add: paren_not_digit)
  qed
  show ?thesis using n by (simp add: formatF3_def Let_def d)
qed

lemma extractScore_printed: "extractScore (s @ '' (sim='' @ formatF3 x @ '')'') = score3 x"
proof -
  have "LastIndex (s @ '' (sim='' @ formatF3 x @ '')'') ''(sim='' = int (length s) + 1"
    using formatF3_no_paren by (rule LastIndex_suffix)
  moreover have "drop (nat (int (length s) + 1 + 5)) (s @ '' (sim='' @ formatF3 x @ '')'') =
      formatF3 x @ '')''"
    by (simp add: nat_add_distrib)
  ultimately show ?thesis
    using scanFloat_formatF3 [of x] by (simp add: extractScore_def Let_def)
qed

lemma extractScore_scoredChunk: "extractScore (Snippet (scoredChunk d em x)) = score3 x"
  using extractScore_printed [of "snippet em" x] by (simp add: scoredChunk_def)

subsection \<open>Selection of the best items\<close>

text \<open>The index of the first item with the largest score.\<close>

lemma bestFrom_first_max:
  assumes "length pre = j" and "b < j" and "s = score (pre ! b)"
    and "\<forall>i<j. score (pre ! i) \<le> s" and "\<forall>i<b. score (pre ! i) < s"
  shows "bestFrom b s j rest < length (pre @ rest)
    \<and> (\<forall>i<length (pre @ rest). score ((pre @ rest) ! i) \<le> score ((pre @ rest) ! bestFrom b s j rest))
    \<and> (\<forall>i<bestFrom b s j rest. score ((pre @ rest) ! i) < score ((pre @ rest) ! bestFrom b s j rest))"
  using assms
proof (induction rest arbitrary: pre j b s)
  case Nil
  then show ?case by simp
next
  case (Cons x rest)
  let ?pre = "pre @ [x]"
  have len: "length ?pre = Suc j" using Cons.prems(1) by simp
  show ?case
  proof (cases "score x > s")
    case True
    have 1: "j < Suc j" by simp
    have 2: "score x = score (?pre ! j)" using Cons.prems(1) by (simp add: nth_append)
    have 3: "\<forall>i<Suc j. score (?pre ! i) \<le> score x"
    proof (intro allI impI)
      fix i assume "i < Suc j"
      then consider "i < j" | "i = j" by linarith
      then show "score (?pre ! i) \<le> score x"
      proof cases
        case 1
        then have "score (?pre ! i) = score (pre ! i)" using Cons.prems(1) by (simp add: nth_append)
        then show ?thesis using Cons.prems(4) 1 True by fastforce
      next
        case 2
        then show ?thesis using Cons.prems(1) by (simp add: nth_append)
      qed
    qed
    have 4: "\<forall>i<j. score (?pre ! i) < score x"
    proof (intro allI impI)
      fix i assume i: "i < j"
      then have "score (?pre ! i) = score (pre ! i)" using Cons.prems(1) by (simp add: nth_append)
      then show "score (?pre ! i) < score x" using Cons.prems(4) i True by fastforce
    qed
    have "bestFrom b s j (x # rest) = bestFrom j (score x) (Suc j) rest" using True by simp
    then show ?thesis using Cons.IH [OF len 1 2 3 4] by simp
  next
    case False
    have 1: "b < Suc j" using Cons.prems(2) by simp
    have 2: "s = score (?pre ! b)" using Cons.prems(1,2,3) by (simp add: nth_append)
    have 3: "\<forall>i<Suc j. score (?pre ! i) \<le> s"
    proof (intro allI impI)
      fix i assume "i < Suc j"
      then consider "i < j" | "i = j" by linarith
      then show "score (?pre ! i) \<le> s"
      proof cases
        case 1
        then show ?thesis using Cons.prems(1,4) by (simp add: nth_append)
      next
        case 2
        then show ?thesis using Cons.prems(1) False by (simp add: nth_append)
      qed
    qed
    have 4: "\<forall>i<b. score (?pre ! i) < s"
      using Cons.prems(1,2,5) by (simp add: nth_append)
    have "bestFrom b s j (x # rest) = bestFrom b s (Suc j) rest" using False by simp
    then show ?thesis using Cons.IH [OF len 1 2 3 4] by simp
  qed
qed

lemma insort_key_least: "\<forall>y \<in> set ys. f x \<le> f y \<Longrightarrow> insort_key f x ys = x # ys"
  by (cases ys) simp_all

text \<open>
  Removing the first item with the least key from a list and sorting the rest is the
  stable sort of the list without its head.
\<close>

lemma sort_key_first_least:
  assumes "r < length xs" and "\<forall>y \<in> set xs. f (xs ! r) \<le> f y" and "\<forall>i<r. f (xs ! r) < f (xs ! i)"
  shows "sort_key f xs = xs ! r # sort_key f (take r xs @ drop (Suc r) xs)"
  using assms
proof (induction xs arbitrary: r)
  case Nil
  then show ?case by simp
next
  case (Cons x xs)
  show ?case
  proof (cases r)
    case 0
    have "\<forall>y \<in> set (sort_key f xs). f x \<le> f y" using Cons.prems(2) 0 by simp
    then have "insort_key f x (sort_key f xs) = x # sort_key f xs" by (rule insort_key_least)
    then show ?thesis using 0 by simp
  next
    case (Suc r')
    have 1: "r' < length xs" using Cons.prems(1) Suc by simp
    have 2: "\<forall>y \<in> set xs. f (xs ! r') \<le> f y" using Cons.prems(2) Suc by simp
    have 3: "\<forall>i<r'. f (xs ! r') < f (xs ! i)"
    proof (intro allI impI)
      fix i assume "i < r'"
      then have "Suc i < r" using Suc by simp
      then have "f ((x # xs) ! r) < f ((x # xs) ! Suc i)" using Cons.prems(3) by blast
      then show "f (xs ! r') < f (xs ! i)" using Suc by simp
    qed
    have ih: "sort_key f xs = xs ! r' # sort_key f (take r' xs @ drop (Suc r') xs)"
      using Cons.IH [OF 1 2 3] .
    have "f ((x # xs) ! r) < f ((x # xs) ! 0)" using Cons.prems(3) Suc by blast
    then have lt: "\<not> f x \<le> f (xs ! r')" using Suc by simp
    have "sort_key f (x # xs) = insort_key f x (sort_key f xs)" by simp
    also have "\<dots> = insort_key f x (xs ! r' # sort_key f (take r' xs @ drop (Suc r') xs))"
      using ih by simp
    also have "\<dots> = xs ! r' # insort_key f x (sort_key f (take r' xs @ drop (Suc r') xs))"
      using lt by simp
    finally show ?thesis using Suc by simp
  qed
qed

lemma topKLoop_sorted:
  "topKLoop n items res = res @ take n (sort_key (\<lambda>c. - score c) items)"
proof (induction n items res rule: topKLoop.induct)
  case (1 items res)
  then show ?case by simp
next
  case (2 n res)
  then show ?case by simp
next
  case (3 n x rest res)
  let ?items = "x # rest"
  let ?r = "bestFrom 0 (score x) 1 rest"
  have b: "?r < length ([x] @ rest)
    \<and> (\<forall>i<length ([x] @ rest). score (([x] @ rest) ! i) \<le> score (([x] @ rest) ! ?r))
    \<and> (\<forall>i<?r. score (([x] @ rest) ! i) < score (([x] @ rest) ! ?r))"
    by (rule bestFrom_first_max) simp_all
  have r1: "?r < length ?items" using b by simp
  have r2: "\<forall>y \<in> set ?items. - score (?items ! ?r) \<le> - score y"
  proof
    fix y assume "y \<in> set ?items"
    then obtain i where "i < length ?items" "?items ! i = y" by (meson in_set_conv_nth)
    then show "- score (?items ! ?r) \<le> - score y" using b by auto
  qed
  have r3: "\<forall>i<?r. - score (?items ! ?r) < - score (?items ! i)" using b by simp
  have s: "sort_key (\<lambda>c. - score c) ?items =
      ?items ! ?r # sort_key (\<lambda>c. - score c) (take ?r ?items @ drop (Suc ?r) ?items)"
    using r1 r2 r3 by (rule sort_key_first_least)
  have "topKLoop (Suc n) ?items res =
      topKLoop n (take ?r ?items @ drop (Suc ?r) ?items) (res @ [?items ! ?r])"
    by (simp add: Let_def)
  also have "\<dots> = (res @ [?items ! ?r]) @
      take n (sort_key (\<lambda>c. - score c) (take ?r ?items @ drop (Suc ?r) ?items))"
    using 3 by (simp add: Let_def)
  also have "\<dots> = res @ take (Suc n) (sort_key (\<lambda>c. - score c) ?items)"
    by (simp only: s) simp
  finally show ?case .
qed

lemma topK_sorted:
  "0 \<le> k \<Longrightarrow> topK items k = Inr (take (nat k) (sort_key (\<lambda>c. - score c) items))"
  by (simp add: topK_def topKLoop_sorted)

subsection \<open>The linear scan\<close>

lemma scanRows_scored:
  "\<forall>r \<in> set rows. length (vector (snd r)) = length queryVec \<Longrightarrow>
   scanRows queryVec rows results = Inr (results @ scored queryVec rows)"
proof (induction rows arbitrary: results)
  case Nil
  then show ?case by (simp add: scored_def)
next
  case (Cons r rows)
  obtain d em where r: "r = (d, em)" by (cases r)
  have "cosine (vector em) queryVec = Inr (cosineSimilarity (vector em) queryVec)"
    using Cons.prems r by (simp add: cosine_eq)
  then show ?case using Cons r by (simp add: scored_def)
qed

lemma scanRows_rows:
  "scanRows queryVec rows results = Inr out \<Longrightarrow>
   \<exists>new. out = results @ new \<and>
     (\<forall>c \<in> set new. \<exists>r \<in> set rows. \<exists>sim. cosine (vector (snd r)) queryVec = Inr sim \<and>
        c = scoredChunk (fst r) (snd r) sim)"
proof (induction rows arbitrary: results)
  case Nil
  then show ?case by simp
next
  case (Cons r rows)
  obtain d em where r: "r = (d, em)" by (cases r)
  from Cons.prems r obtain sim where sim: "cosine (vector em) queryVec = Inr sim"
    by (cases "cosine (vector em) queryVec") auto
  with Cons.prems r have "scanRows queryVec rows (results @ [scoredChunk d em sim]) = Inr out" by simp
  then obtain new where new: "out = (results @ [scoredChunk d em sim]) @ new"
      "\<forall>c \<in> set new. \<exists>r \<in> set rows. \<exists>sim. cosine (vector (snd r)) queryVec = Inr sim \<and>
        c = scoredChunk (fst r) (snd r) sim"
    using Cons.IH by blast
  have "out = results @ (scoredChunk d em sim # new)" using new(1) by simp
  moreover have "\<forall>c \<in> set (scoredChunk d em sim # new). \<exists>r \<in> set (r # rows). \<exists>sim.
      cosine (vector (snd r)) queryVec = Inr sim \<and> c = scoredChunk (fst r) (snd r) sim"
    using new(2) sim r by auto
  ultimately show ?case by blast
qed

lemma joinRows_embeddings: "r \<in> set (joinRows st) \<Longrightarrow> snd r \<in> set (embeddings st)"
  by (auto simp: joinRows_def)

lemma search_sqlite:
  assumes "backend e \<noteq> ''postgres''" and "driverError e SelectChunks = None"
  shows "fst (search e queryVec k st) =
    (case scanRows queryVec (joinRows st) [] of
       Inl p \<Rightarrow> Inl p
     | Inr results \<Rightarrow>
         if int (length results) > k then
           (case topK results k of Inl p \<Rightarrow> Inl p | Inr best \<Rightarrow> Inr (Inr best))
         else Inr (Inr results))"
  using assms by (simp add: search_def Let_def split: sum.splits)

lemma search_scored:
  assumes "backend e \<noteq> ''postgres''" and "driverError e SelectChunks = None"
    and "\<forall>em \<in> set (embeddings st). length (vector em) = length queryVec" and "0 \<le> k"
  shows "fst (search e queryVec k st) =
    Inr (Inr (if int (length (joinRows st)) > k
              then take (nat k) (sort_key (\<lambda>c. - score c) (scored queryVec (joinRows st)))
              else scored queryVec (joinRows st)))"
proof -
  have "\<forall>r \<in> set (joinRows st). length (vector (snd r)) = length queryVec"
    using assms(3) joinRows_embeddings by blast
  then have "scanRows queryVec (joinRows st) [] = Inr ([] @ scored queryVec (joinRows st))"
    by (rule scanRows_scored)
  moreover have "length (scored queryVec (joinRows st)) = length (joinRows st)"
    by (simp add: scored_def)
  ultimately show ?thesis
    using assms(4) by (simp add: search_sqlite [OF assms(1,2)] topK_sorted)
qed

lemma sorted_by_score:
  "sorted_wrt (\<lambda>a b. score b \<le> score a) (take n (sort_key (\<lambda>c. - score c) xs))"
proof -
  have "sorted (map (\<lambda>c. - score c) (sort_key (\<lambda>c. - score c) xs))" by (rule sorted_sort_key)
  then have "sorted_wrt (\<lambda>a b. - score a \<le> - score b) (sort_key (\<lambda>c. - score c) xs)"
    by (simp add: sorted_map)
  then have "sorted_wrt (\<lambda>a b. score b \<le> score a) (sort_key (\<lambda>c. - score c) xs)" by simp
  then show ?thesis by (rule sorted_wrt_take)
qed

lemma roundHalfEven_close: "\<bar>real_of_int (roundHalfEven y) - y\<bar> \<le> 1 / 2"
proof -
  have "real_of_int \<lfloor>y\<rfloor> \<le> y" "y < real_of_int \<lfloor>y\<rfloor> + 1" by linarith+
  then show ?thesis by (auto simp: roundHalfEven_def Let_def)
qed

lemma roundHalfEven_nonneg: "0 \<le> y \<Longrightarrow> 0 \<le> roundHalfEven y"
proof -
  assume "0 \<le> y"
  then have "0 \<le> \<lfloor>y\<rfloor>" by simp
  then show ?thesis by (auto simp: roundHalfEven_def Let_def)
qed

lemma score3_close: "\<bar>score3 x - x\<bar> \<le> 1 / 2000"
proof -
  let ?r = "roundHalfEven (\<bar>x\<bar> * 1000)"
  have nn: "0 \<le> ?r" by (rule roundHalfEven_nonneg) simp
  then have t: "real (thousandths x) = real_of_int ?r" by (simp add: thousandths_def)
  have c: "\<bar>real_of_int ?r - \<bar>x\<bar> * 1000\<bar> \<le> 1 / 2" by (rule roundHalfEven_close)
  define y where "y = real_of_int ?r - \<bar>x\<bar> * 1000"
  have c': "\<bar>y\<bar> \<le> 1 / 2" using c by (simp add: y_def)
  define z where "z = score3 x - x"
  have "z = y / 1000 \<or> z = - y / 1000"
    by (cases "x < 0") (simp_all add: z_def score3_def t y_def field_simps)
  then have "\<bar>z\<bar> = \<bar>y\<bar> / 1000" by auto
  with c' have "\<bar>z\<bar> \<le> 1 / 2000" by simp
  then show ?thesis by (simp only: z_def)
qed

subsection \<open>The example stores\<close>

lemma sqrt_square: "0 \<le> y \<Longrightarrow> y * y = x \<Longrightarrow> sqrt x = y"
  by (metis real_sqrt_abs2 abs_of_nonneg)

lemma norm_34: "norm2 [3, 4] = 5"
  by (simp add: norm2_def sumSquares_def)

lemma norm_10: "norm2 [1, 0] = 1" "norm2 [0, 1] = 1"
  by (simp_all add: norm2_def sumSquares_def)

lemma norm_big: "norm2 [1472801, 1961400] = 2452801"
proof -
  have "sumSquares [1472801, 1961400] = 6016232745601" by (simp add: sumSquares_def)
  moreover have "sqrt 6016232745601 = 2452801" by (rule sqrt_square) simp_all
  ultimately show ?thesis by (simp add: norm2_def)
qed

lemma sim_34: "cosineSimilarity [3, 4] [1, 0] = 3 / 5"
  by (simp add: cosineSimilarity_def norm_34 norm_10 dotProduct_def)

lemma sim_big: "cosineSimilarity [1472801, 1961400] [1, 0] = 1472801 / 2452801"
  by (simp add: cosineSimilarity_def norm_big norm_10 dotProduct_def)

lemma sim_01: "cosineSimilarity [0, 1] [1, 0] = 0"
  by (simp add: cosineSimilarity_def norm_10 dotProduct_def)

lemma sim_11: "cosineSimilarity [1, 0] [1, 0] = 1"
  by (simp add: cosineSimilarity_def norm_10 dotProduct_def)

lemma thousandths_34: "thousandths (3 / 5) = 600"
  by (simp add: thousandths_def roundHalfEven_def)

lemma thousandths_big: "thousandths (1472801 / 2452801) = 600"
proof -
  have f: "\<lfloor>(1472801000 :: real) / 2452801\<rfloor> = 600" by (simp add: floor_eq_iff)
  have "roundHalfEven (1472801000 / 2452801) = 600"
    by (simp add: roundHalfEven_def Let_def f)
  then show ?thesis by (simp add: thousandths_def)
qed

lemma thousandths_0: "thousandths 0 = 0" "thousandths 1 = 1000"
  by (simp_all add: thousandths_def roundHalfEven_def)

lemma score3_examples:
  "score3 (3 / 5) = 3 / 5" "score3 (1472801 / 2452801) = 3 / 5" "score3 0 = 0" "score3 1 = 1"
  by (simp_all add: score3_def thousandths_34 thousandths_big thousandths_0)

lemma digit_chars: "digit 0 = CHR ''0''" "digit 1 = CHR ''1''" "digit 6 = CHR ''6''"
  by code_simp+

lemma decimal_0: "decimal 0 = ''0''" "decimal 1 = ''1''"
  by code_simp+

lemma formatF3_examples:
  "formatF3 (3 / 5) = ''0.600''" "formatF3 (1472801 / 2452801) = ''0.600''"
  "formatF3 0 = ''0.000''" "formatF3 1 = ''1.000''"
  by (simp_all add: formatF3_def thousandths_34 thousandths_big thousandths_0 decimal_0 digit_chars
        del: One_nat_def)

lemma joinRows_three:
  "joinRows threeChunks =
     [(row 1 ''u'', chunkRow 1 [3, 4]), (row 2 ''v'', chunkRow 2 [1472801, 1961400]),
      (row 3 ''w'', chunkRow 3 [0, 1])]"
  by (simp add: joinRows_def threeChunks_def row_def chunkRow_def)

lemma joinRows_two:
  "joinRows twoChunks = [(row 1 ''u'', chunkRow 1 [0, 1]), (row 2 ''v'', chunkRow 2 [1, 0])]"
  by (simp add: joinRows_def twoChunks_def row_def chunkRow_def)

lemma scored_three:
  "scored [1, 0] (joinRows threeChunks) =
     [scoredChunk (row 1 ''u'') (chunkRow 1 [3, 4]) (3 / 5),
      scoredChunk (row 2 ''v'') (chunkRow 2 [1472801, 1961400]) (1472801 / 2452801),
      scoredChunk (row 3 ''w'') (chunkRow 3 [0, 1]) 0]"
  by (simp add: joinRows_three scored_def chunkRow_def sim_34 sim_big sim_01)

lemma scored_two:
  "scored [1, 0] (joinRows twoChunks) =
     [scoredChunk (row 1 ''u'') (chunkRow 1 [0, 1]) 0,
      scoredChunk (row 2 ''v'') (chunkRow 2 [1, 0]) 1]"
  by (simp add: joinRows_two scored_def chunkRow_def sim_01 sim_11)

lemma demo_sqlite: "backend demoEngine \<noteq> ''postgres''" "driverError demoEngine SelectChunks = None"
  by (simp_all add: demoEngine_def)

lemma dims_three: "\<forall>em \<in> set (embeddings threeChunks). length (vector em) = length [1, 0 :: real]"
  by (simp add: threeChunks_def chunkRow_def)

lemma dims_two: "\<forall>em \<in> set (embeddings twoChunks). length (vector em) = length [1, 0 :: real]"
  by (simp add: twoChunks_def chunkRow_def)

lemma search_three:
  "fst (search demoEngine [1, 0] 2 threeChunks) =
     Inr (Inr [scoredChunk (row 1 ''u'') (chunkRow 1 [3, 4]) (3 / 5),
               scoredChunk (row 2 ''v'') (chunkRow 2 [1472801, 1961400]) (1472801 / 2452801)])"
proof -
  have "(0::int) \<le> 2" by simp
  from search_scored [OF demo_sqlite dims_three this]
  show ?thesis
    by (simp add: joinRows_three [THEN arg_cong, of length] scored_three
          extractScore_scoredChunk score3_examples)
qed

lemma search_two:
  "fst (search demoEngine [1, 0] 8 twoChunks) =
     Inr (Inr [scoredChunk (row 1 ''u'') (chunkRow 1 [0, 1]) 0,
               scoredChunk (row 2 ''v'') (chunkRow 2 [1, 0]) 1])"
proof -
  have "(0::int) \<le> 8" by simp
  from search_scored [OF demo_sqlite dims_two this]
  show ?thesis by (simp add: joinRows_two [THEN arg_cong, of length] scored_two)
qed

lemma search_negative: "fst (search demoEngine [1, 0] (- 1) twoChunks) = Inl MakeSliceCap"
proof -
  have "scanRows [1, 0] (joinRows twoChunks) [] = Inr ([] @ scored [1, 0] (joinRows twoChunks))"
    using dims_two joinRows_embeddings by (intro scanRows_scored) blast
  then show ?thesis
    by (simp add: search_sqlite [OF demo_sqlite] scored_two topK_def)
qed

text \<open>
  C1 fails as stated. With three chunks and \<open>k = 2\<close>, search returns the chunk of
  similarity 0.6 before the chunk of similarity 0.600457...: both print as 0.600 and the
  first one scanned wins. With two chunks and \<open>k = 8\<close> the chunks come back in scan
  order, the less similar one first, since nothing is sorted when no more than \<open>k\<close>
  chunks are stored. With a negative \<open>k\<close> search panics.
\<close>

theorem search_order_counterexample:
  "fst (search demoEngine [1, 0] 2 threeChunks) =
     Inr (Inr [scoredChunk (row 1 ''u'') (chunkRow 1 [3, 4]) (3 / 5),
               scoredChunk (row 2 ''v'') (chunkRow 2 [1472801, 1961400]) (1472801 / 2452801)])
   \<and> cosine [3, 4] [1, 0] = Inr (3 / 5)
   \<and> cosine [1472801, 1961400] [1, 0] = Inr (1472801 / 2452801)
   \<and> (3 / 5 :: real) < 1472801 / 2452801
   \<and> fst (search demoEngine [1, 0] 8 twoChunks) =
     Inr (Inr [scoredChunk (row 1 ''u'') (chunkRow 1 [0, 1]) 0,
               scoredChunk (row 2 ''v'') (chunkRow 2 [1, 0]) 1])
   \<and> cosine [0, 1] [1, 0] = Inr 0 \<and> cosine [1, 0] [1, 0] = Inr 1
   \<and> fst (search demoEngine [1, 0] (- 1) twoChunks) = Inl MakeSliceCap"
proof -
  have "cosine [3, 4] [1, 0] = Inr (3 / 5)" by (simp add: cosine_eq sim_34)
  moreover have "cosine [1472801, 1961400] [1, 0] = Inr (1472801 / 2452801)"
    by (simp add: cosine_eq sim_big)
  moreover have "(3 / 5 :: real) < 1472801 / 2452801" by simp
  moreover have "cosine [0, 1] [1, 0] = Inr 0" by (simp add: cosine_eq sim_01)
  moreover have "cosine [1, 0] [1, 0] = Inr 1" by (simp add: cosine_eq sim_11)
  ultimately show ?thesis using search_three search_two search_negative by blast
qed

text \<open>
  C1, amended. On the linear-scan backend, when the query succeeds, the stored vectors
  have the length of the query vector and \<open>k \<ge> 0\<close>, search returns at most \<open>k\<close> chunks,
  each a scanned chunk whose score is its cosine similarity rounded to three decimals.
  When more than \<open>k\<close> chunks are stored, the result is the first \<open>k\<close> chunks of the stable
  sort of the scanned chunks by decreasing score: the scores of the result do not
  increase, and chunks of equal score keep the order in which they were scanned.
\<close>

theorem search_top_k:
  assumes "backend e \<noteq> ''postgres''" and "driverError e SelectChunks = None"
    and "\<forall>em \<in> set (embeddings st). length (vector em) = length queryVec" and "0 \<le> k"
  shows "\<exists>rs. fst (search e queryVec k st) = Inr (Inr rs)
    \<and> length rs \<le> nat k
    \<and> (\<forall>c \<in> set rs. \<exists>r \<in> set (joinRows st).
          c = scoredChunk (fst r) (snd r) (cosineSimilarity (vector (snd r)) queryVec) \<and>
          score c = score3 (cosineSimilarity (vector (snd r)) queryVec))
    \<and> (k < int (length (joinRows st)) \<longrightarrow>
          rs = take (nat k) (sort_key (\<lambda>c. - score c) (scored queryVec (joinRows st))) \<and>
          sorted_wrt (\<lambda>a b. score b \<le> score a) rs)"
proof -
  let ?all = "scored queryVec (joinRows st)"
  let ?rs = "if int (length (joinRows st)) > k then take (nat k) (sort_key (\<lambda>c. - score c) ?all)
             else ?all"
  have s: "fst (search e queryVec k st) = Inr (Inr ?rs)" using assms by (rule search_scored)
  have len: "length ?all = length (joinRows st)" by (simp add: scored_def)
  have l: "length ?rs \<le> nat k" using assms(4) len by auto
  have sub: "set ?rs \<subseteq> set ?all"
    using set_take_subset [of "nat k" "sort_key (\<lambda>c. - score c) ?all"] by auto
  have m: "\<forall>c \<in> set ?rs. \<exists>r \<in> set (joinRows st).
          c = scoredChunk (fst r) (snd r) (cosineSimilarity (vector (snd r)) queryVec) \<and>
          score c = score3 (cosineSimilarity (vector (snd r)) queryVec)"
  proof
    fix c assume "c \<in> set ?rs"
    then have "c \<in> set ?all" using sub by blast
    then obtain r where "r \<in> set (joinRows st)"
        "c = scoredChunk (fst r) (snd r) (cosineSimilarity (vector (snd r)) queryVec)"
      by (auto simp: scored_def)
    then show "\<exists>r \<in> set (joinRows st).
          c = scoredChunk (fst r) (snd r) (cosineSimilarity (vector (snd r)) queryVec) \<and>
          score c = score3 (cosineSimilarity (vector (snd r)) queryVec)"
      using extractScore_scoredChunk by blast
  qed
  have o: "k < int (length (joinRows st)) \<longrightarrow>
          ?rs = take (nat k) (sort_key (\<lambda>c. - score c) ?all) \<and>
          sorted_wrt (\<lambda>a b. score b \<le> score a) ?rs"
    using sorted_by_score by simp
  from s l m o show ?thesis by blast
qed

theorem search_top_k_witness:
  "backend demoEngine \<noteq> ''postgres'' \<and> driverError demoEngine SelectChunks = None
   \<and> map (\<lambda>em. length (vector em)) (embeddings threeChunks) = [2, 2, 2]
   \<and> length [1, 0 :: real] = 2
   \<and> (0 :: int) \<le> 2 \<and> 2 < int (length (joinRows threeChunks))
   \<and> fst (search demoEngine [1, 0] 2 threeChunks) =
       Inr (Inr [scoredChunk (row 1 ''u'') (chunkRow 1 [3, 4]) (3 / 5),
                 scoredChunk (row 2 ''v'') (chunkRow 2 [1472801, 1961400]) (1472801 / 2452801)])
   \<and> sorted_wrt (\<lambda>a b. score b \<le> score a)
        [scoredChunk (row 1 ''u'') (chunkRow 1 [3, 4]) (3 / 5),
         scoredChunk (row 2 ''v'') (chunkRow 2 [1472801, 1961400]) (1472801 / 2452801)]"
proof -
  have k: "(0 :: int) \<le> 2" by simp
  have n: "2 < int (length (joinRows threeChunks))" by (simp add: joinRows_three)
  obtain rs where rs: "fst (search demoEngine [1, 0] 2 threeChunks) = Inr (Inr rs)"
      "2 < int (length (joinRows threeChunks)) \<longrightarrow>
          rs = take (nat 2) (sort_key (\<lambda>c. - score c) (scored [1, 0] (joinRows threeChunks))) \<and>
          sorted_wrt (\<lambda>a b. score b \<le> score a) rs"
    using search_top_k [OF demo_sqlite dims_three k] by blast
  have eq: "rs = [scoredChunk (row 1 ''u'') (chunkRow 1 [3, 4]) (3 / 5),
         scoredChunk (row 2 ''v'') (chunkRow 2 [1472801, 1961400]) (1472801 / 2452801)]"
    using rs(1) search_three by simp
  have "sorted_wrt (\<lambda>a b. score b \<le> score a) rs" using rs(2) n by blast
  then have so: "sorted_wrt (\<lambda>a b. score b \<le> score a)
        [scoredChunk (row 1 ''u'') (chunkRow 1 [3, 4]) (3 / 5),
         scoredChunk (row 2 ''v'') (chunkRow 2 [1472801, 1961400]) (1472801 / 2452801)]"
    by (simp only: eq)
  have dims: "map (\<lambda>em. length (vector em)) (embeddings threeChunks) = [2, 2, 2]"
    by (simp add: threeChunks_def chunkRow_def)
  have len: "length [1, 0 :: real] = 2" by simp
  from demo_sqlite dims len k n search_three so show ?thesis by (intro conjI)
qed

lemma search_logEvent: "fst (search e queryVec k (logEvent ev st)) = fst (search e queryVec k st)"
  by (simp add: search_def logEvent_def joinRows_def Let_def split: option.splits sum.splits)

lemma Answer_citations:
  assumes "Answer e query kialiContext st = (Inr (answer, cits, m, None), st')"
  shows "\<exists>emb docs. embedProvider e query = Inr emb \<and>
           fst (search e emb 8 st) = Inr (Inr docs) \<and> map Span cits = map Snippet docs"
proof -
  have ne: "TrimSpace query \<noteq> []" using assms by (auto simp: Answer_def)
  obtain emb where emb: "embedProvider e query = Inr emb"
    using assms ne by (cases "embedProvider e query") (auto simp: Answer_def Let_def)
  let ?st1 = "logEvent (CallEmbed query) st"
  obtain x st2 where s: "search e emb 8 ?st1 = (x, st2)" by (cases "search e emb 8 ?st1")
  from assms ne emb s obtain docs where docs: "x = Inr (Inr docs)"
    by (cases x) (auto simp: Answer_def Let_def split: sum.splits)
  have "cits = map citation docs"
    using assms ne emb s docs by (auto simp: Answer_def Let_def split: sum.splits)
  then have "map Span cits = map Snippet docs" by (simp add: citation_def)
  moreover have "fst (search e emb 8 st) = Inr (Inr docs)"
    using s docs search_logEvent [of e emb 8 "CallEmbed query" st] by simp
  ultimately show ?thesis using emb by blast
qed

text \<open>
  C10. On the linear-scan backend every chunk that search returns has the stored
  snippet with the text \<open>(sim=...)\<close> of its similarity appended. The citations of Answer
  carry the snippets of the chunks that search returned. topK orders the items by the
  score that extractScore reads back from the snippet; read back from a printed
  snippet, that score is the similarity rounded to three decimals, within 1/2000 of it.
\<close>

theorem snippet_carries_score:
  "(backend e \<noteq> ''postgres'' \<and> driverError e SelectChunks = None \<and>
      fst (search e queryVec k st) = Inr (Inr rs) \<longrightarrow>
      (\<forall>c \<in> set rs. \<exists>r \<in> set (joinRows st). \<exists>sim.
          cosine (vector (snd r)) queryVec = Inr sim \<and>
          Snippet c = snippet (snd r) @ '' (sim='' @ formatF3 sim @ '')''))
   \<and> (Answer e query kialiContext st = (Inr (answer, cits, m, None), st') \<longrightarrow>
      (\<exists>emb docs. embedProvider e query = Inr emb \<and>
          fst (search e emb 8 st) = Inr (Inr docs) \<and> map Span cits = map Snippet docs))
   \<and> (0 \<le> k \<longrightarrow>
      topK items k = Inr (take (nat k) (sort_key (\<lambda>c. - extractScore (Snippet c)) items)))
   \<and> extractScore (stored @ '' (sim='' @ formatF3 x @ '')'') = score3 x
   \<and> \<bar>score3 x - x\<bar> \<le> 1 / 2000"
proof -
  have a: "backend e \<noteq> ''postgres'' \<and> driverError e SelectChunks = None \<and>
      fst (search e queryVec k st) = Inr (Inr rs) \<longrightarrow>
      (\<forall>c \<in> set rs. \<exists>r \<in> set (joinRows st). \<exists>sim.
          cosine (vector (snd r)) queryVec = Inr sim \<and>
          Snippet c = snippet (snd r) @ '' (sim='' @ formatF3 sim @ '')'')"
  proof (intro impI ballI)
    fix c
    assume h: "backend e \<noteq> ''postgres'' \<and> driverError e SelectChunks = None \<and>
      fst (search e queryVec k st) = Inr (Inr rs)" and c: "c \<in> set rs"
    then have e1: "backend e \<noteq> ''postgres''" and e2: "driverError e SelectChunks = None"
      and e3: "fst (search e queryVec k st) = Inr (Inr rs)" by auto
    note s = search_sqlite [OF e1 e2, of queryVec k st]
    obtain results where res: "scanRows queryVec (joinRows st) [] = Inr results"
      using s e3 by (cases "scanRows queryVec (joinRows st) []") auto
    have "set rs \<subseteq> set results"
    proof (cases "int (length results) > k")
      case False
      with s e3 res show ?thesis by simp
    next
      case True
      with s e3 res have t: "topK results k = Inr rs" by (simp split: sum.splits)
      then have "0 \<le> k" by (auto simp: topK_def split: if_splits)
      then have "rs = take (nat k) (sort_key (\<lambda>c. - score c) results)"
        using t by (simp add: topK_sorted)
      then show ?thesis
        using set_take_subset [of "nat k" "sort_key (\<lambda>c. - score c) results"] by simp
    qed
    with c have "c \<in> set results" by blast
    moreover obtain new where "results = [] @ new"
        "\<forall>c \<in> set new. \<exists>r \<in> set (joinRows st). \<exists>sim.
           cosine (vector (snd r)) queryVec = Inr sim \<and> c = scoredChunk (fst r) (snd r) sim"
      using scanRows_rows [OF res] by blast
    ultimately obtain r sim where "r \<in> set (joinRows st)" "cosine (vector (snd r)) queryVec = Inr sim"
        "c = scoredChunk (fst r) (snd r) sim"
      by auto
    then show "\<exists>r \<in> set (joinRows st). \<exists>sim.
          cosine (vector (snd r)) queryVec = Inr sim \<and>
          Snippet c = snippet (snd r) @ '' (sim='' @ formatF3 sim @ '')''"
      by (auto simp: scoredChunk_def)
  qed
  have b: "Answer e query kialiContext st = (Inr (answer, cits, m, None), st') \<longrightarrow>
      (\<exists>emb docs. embedProvider e query = Inr emb \<and>
          fst (search e emb 8 st) = Inr (Inr docs) \<and> map Span cits = map Snippet docs)"
    using Answer_citations by blast
  have c: "0 \<le> k \<longrightarrow>
      topK items k = Inr (take (nat k) (sort_key (\<lambda>c. - extractScore (Snippet c)) items))"
    by (simp add: topK_sorted)
  from a b c extractScore_printed [of stored x] score3_close [of x] show ?thesis by blast
qed


lemma Answer_success:
  assumes "TrimSpace query \<noteq> []" and "embedProvider e query = Inr emb"
    and "fst (search e emb 8 st) = Inr (Inr docs)"
    and "completionProvider e (buildPrompt query kialiContext docs) = Inr answer"
  shows "\<exists>st'. Answer e query kialiContext st = (Inr (answer, map citation docs, models e, None), st')"
proof -
  let ?st1 = "logEvent (CallEmbed query) st"
  obtain x st2 where s: "search e emb 8 ?st1 = (x, st2)" by (cases "search e emb 8 ?st1")
  then have "x = Inr (Inr docs)"
    using assms(3) search_logEvent [of e emb 8 "CallEmbed query" st] by simp
  with s assms show ?thesis by (simp add: Answer_def Let_def)
qed

lemma TrimSpace_q: "TrimSpace ''q'' = ''q''"
  by code_simp

lemma search_three_all:
  "fst (search demoEngine [1, 0] 8 threeChunks) =
     Inr (Inr [scoredChunk (row 1 ''u'') (chunkRow 1 [3, 4]) (3 / 5),
               scoredChunk (row 2 ''v'') (chunkRow 2 [1472801, 1961400]) (1472801 / 2452801),
               scoredChunk (row 3 ''w'') (chunkRow 3 [0, 1]) 0])"
proof -
  have "(0::int) \<le> 8" by simp
  from search_scored [OF demo_sqlite dims_three this]
  show ?thesis by (simp add: joinRows_three [THEN arg_cong, of length] scored_three)
qed

theorem snippet_carries_score_witness:
  "backend demoEngine \<noteq> ''postgres'' \<and> driverError demoEngine SelectChunks = None
   \<and> fst (search demoEngine [1, 0] 2 threeChunks) =
       Inr (Inr [scoredChunk (row 1 ''u'') (chunkRow 1 [3, 4]) (3 / 5),
                 scoredChunk (row 2 ''v'') (chunkRow 2 [1472801, 1961400]) (1472801 / 2452801)])
   \<and> map Snippet [scoredChunk (row 1 ''u'') (chunkRow 1 [3, 4]) (3 / 5),
                  scoredChunk (row 2 ''v'') (chunkRow 2 [1472801, 1961400]) (1472801 / 2452801)] =
       ['' (sim=0.600)'', '' (sim=0.600)'']
   \<and> (\<exists>cits st'. Answer demoEngine ''q'' None threeChunks =
          (Inr (''ok'', cits, models demoEngine, None), st') \<and>
        map Span cits = ['' (sim=0.600)'', '' (sim=0.600)'', '' (sim=0.000)''])
   \<and> (0 :: int) \<le> 2
   \<and> topK (scored [1, 0] (joinRows threeChunks)) 2 =
       Inr [scoredChunk (row 1 ''u'') (chunkRow 1 [3, 4]) (3 / 5),
            scoredChunk (row 2 ''v'') (chunkRow 2 [1472801, 1961400]) (1472801 / 2452801)]
   \<and> extractScore '' (sim=0.600)'' = 3 / 5
   \<and> (3 / 5 :: real) < 1472801 / 2452801"
proof -
  let ?A = "scoredChunk (row 1 ''u'') (chunkRow 1 [3, 4]) (3 / 5)"
  let ?B = "scoredChunk (row 2 ''v'') (chunkRow 2 [1472801, 1961400]) (1472801 / 2452801)"
  let ?C = "scoredChunk (row 3 ''w'') (chunkRow 3 [0, 1]) 0"
  have sn: "map Snippet [?A, ?B, ?C] = ['' (sim=0.600)'', '' (sim=0.600)'', '' (sim=0.000)'']"
    by (simp add: scoredChunk_def chunkRow_def formatF3_examples)
  then have sn2: "map Snippet [?A, ?B] = ['' (sim=0.600)'', '' (sim=0.600)'']" by simp
  have emb: "embedProvider demoEngine ''q'' = Inr [1, 0]" by (simp add: demoEngine_def)
  have comp: "completionProvider demoEngine (buildPrompt ''q'' None [?A, ?B, ?C]) = Inr ''ok''"
    by (simp add: demoEngine_def)
  obtain st' where ans: "Answer demoEngine ''q'' None threeChunks =
      (Inr (''ok'', map citation [?A, ?B, ?C], models demoEngine, None), st')"
    using Answer_success [of "''q''" demoEngine "[1, 0]" threeChunks "[?A, ?B, ?C]" None "''ok''"]
      TrimSpace_q emb search_three_all comp by auto
  note inst = snippet_carries_score [of demoEngine "[1, 0]" 2 threeChunks "[?A, ?B]" "''q''" None
      "''ok''" "map citation [?A, ?B, ?C]" "models demoEngine" st'
      "scored [1, 0] (joinRows threeChunks)" "[]" "3 / 5"]
  from inst ans obtain docs where d: "fst (search demoEngine [1, 0] 8 threeChunks) = Inr (Inr docs)"
      "map Span (map citation [?A, ?B, ?C]) = map Snippet docs"
    using emb by auto
  then have "docs = [?A, ?B, ?C]" using search_three_all by simp
  with d sn have sp: "map Span (map citation [?A, ?B, ?C]) =
      ['' (sim=0.600)'', '' (sim=0.600)'', '' (sim=0.000)'']" by simp
  have k: "(0 :: int) \<le> 2" by simp
  from inst k have "topK (scored [1, 0] (joinRows threeChunks)) 2 =
      Inr (take (nat 2) (sort_key (\<lambda>c. - extractScore (Snippet c)) (scored [1, 0] (joinRows threeChunks))))"
    by blast
  then have tk: "topK (scored [1, 0] (joinRows threeChunks)) 2 = Inr [?A, ?B]"
    by (simp add: scored_three extractScore_scoredChunk score3_examples)
  from inst have "extractScore ([] @ '' (sim='' @ formatF3 (3 / 5) @ '')'') = score3 (3 / 5)" by blast
  then have ex: "extractScore '' (sim=0.600)'' = 3 / 5"
    by (simp add: formatF3_examples score3_examples)
  have lt: "(3 / 5 :: real) < 1472801 / 2452801" by simp
  from ans sp have "Answer demoEngine ''q'' None threeChunks =
          (Inr (''ok'', map citation [?A, ?B, ?C], models demoEngine, None), st') \<and>
        map Span (map citation [?A, ?B, ?C]) = ['' (sim=0.600)'', '' (sim=0.600)'', '' (sim=0.000)'']"
    by (intro conjI)
  then have "\<exists>cits st'. Answer demoEngine ''q'' None threeChunks =
          (Inr (''ok'', cits, models demoEngine, None), st') \<and>
        map Span cits = ['' (sim=0.600)'', '' (sim=0.600)'', '' (sim=0.000)'']"
    by (intro exI)
  with demo_sqlite search_three sn2 k tk ex lt show ?thesis by (intro conjI)
qed

end
